theory Spec2Isabelle
  imports Complex_Main "HOL-Library.Monad_Syntax"
begin

section \<open>The half-edge mesh of HalfEdgeMesh.cpp as a store of handles\<close>

text \<open>
  The C++ mesh is a cyclic graph of heap objects linked by raw pointers. Every object
  kind gets its own store, a partial map from handles (natural numbers) to records;
  a null pointer is \<open>None\<close>, \<open>new\<close> takes the next handle of a counter that never
  goes back, \<open>delete\<close> removes the handle from the store. Every operation returns an
  \<open>option\<close>: the value \<open>None\<close> stands for undefined behaviour of the C++ code
  (dereferencing a null or freed pointer, \<open>vector::erase\<close> of the end iterator,
  \<open>operator[]\<close> out of range, deleting twice). Statements read the current store
  again each time, so that aliasing between the pointers of a statement sequence is
  kept as the code has it. Coordinates (\<open>float\<close> in the instantiations) are real
  numbers here; the properties below only copy, negate, add and compare them.
\<close>

type_synonym vec = "real \<times> real \<times> real"

definition vadd :: "vec \<Rightarrow> vec \<Rightarrow> vec" where
  "vadd a b = (case a of (x, y, z) \<Rightarrow> case b of (x', y', z') \<Rightarrow> (x + x', y + y', z + z'))"

definition vsub :: "vec \<Rightarrow> vec \<Rightarrow> vec" where
  "vsub a b = (case a of (x, y, z) \<Rightarrow> case b of (x', y', z') \<Rightarrow> (x - x', y - y', z - z'))"

definition smul :: "vec \<Rightarrow> real \<Rightarrow> vec" where
  "smul a s = (case a of (x, y, z) \<Rightarrow> (x * s, y * s, z * s))"

definition dot :: "vec \<Rightarrow> vec \<Rightarrow> real" where
  "dot a b = (case a of (x, y, z) \<Rightarrow> case b of (x', y', z') \<Rightarrow> x * x' + y * y' + z * z')"

definition cross :: "vec \<Rightarrow> vec \<Rightarrow> vec" where
  "cross a b = (case a of (x, y, z) \<Rightarrow> case b of (x', y', z') \<Rightarrow>
     (y * z' - z * y', z * x' - x * z', x * y' - y * x'))"

text \<open>\<open>(p + q) * 0.5\<close>, the point an edge collapses to.\<close>

definition midpoint :: "vec \<Rightarrow> vec \<Rightarrow> vec" where
  "midpoint p q = smul (vadd p q) (1 / 2)"

type_synonym vref = nat
type_synonym eref = nat
type_synonym fref = nat
type_synonym rref = nat

text \<open>\<open>HalfEdgeVertex\<close>: position, normal, and the vectors \<open>out\<close> and \<open>in\<close>.\<close>

record hvertex =
  m_position :: vec
  m_normal :: vec
  out :: "eref list"
  inn :: "eref list"

text \<open>\<open>HalfEdge\<close>: the fields \<open>start\<close>, \<open>end\<close>, \<open>pair\<close>, \<open>face\<close>, \<open>next\<close>, \<open>used\<close>.\<close>

record hedge =
  e_start :: vref
  e_end :: vref
  e_pair :: "eref option"
  e_face :: "fref option"
  e_next :: "eref option"
  e_used :: bool

text \<open>\<open>HalfEdgeFace\<close>: \<open>m_edge\<close>, \<open>m_used\<close>, \<open>m_region\<close> and the stored normal.\<close>

record hface =
  m_edge :: "eref option"
  m_used :: bool
  m_region :: "rref option"
  f_normal :: vec

text \<open>\<open>Region\<close>: its number and the faces it borrows.\<close>

record region =
  m_region_number :: int
  r_faces :: "fref list"

record mesh =
  vertices :: "vref \<Rightarrow> hvertex option"
  edges :: "eref \<Rightarrow> hedge option"
  faces :: "fref \<Rightarrow> hface option"
  regions :: "rref \<Rightarrow> region option"
  m_vertices :: "vref list"
  m_faces :: "fref list"
  m_globalIndex :: int
  m_colorRegions :: bool
  v_fresh :: nat
  e_fresh :: nat
  f_fresh :: nat

definition empty_mesh :: mesh where
  "empty_mesh = \<lparr> vertices = (\<lambda>_. None), edges = (\<lambda>_. None), faces = (\<lambda>_. None),
     regions = (\<lambda>_. None), m_vertices = [], m_faces = [], m_globalIndex = 0,
     m_colorRegions = False, v_fresh = 0, e_fresh = 0, f_fresh = 0 \<rparr>"

subsection \<open>Reading and writing through pointers\<close>

definition pairOf :: "mesh \<Rightarrow> eref \<Rightarrow> eref option" where
  "pairOf m e = do { r \<leftarrow> edges m e; e_pair r }"

definition nextOf :: "mesh \<Rightarrow> eref \<Rightarrow> eref option" where
  "nextOf m e = do { r \<leftarrow> edges m e; e_next r }"

definition faceOf :: "mesh \<Rightarrow> eref \<Rightarrow> fref option" where
  "faceOf m e = do { r \<leftarrow> edges m e; e_face r }"

definition startOf :: "mesh \<Rightarrow> eref \<Rightarrow> vref option" where
  "startOf m e = map_option e_start (edges m e)"

definition endOf :: "mesh \<Rightarrow> eref \<Rightarrow> vref option" where
  "endOf m e = map_option e_end (edges m e)"

definition upd_edge :: "eref \<Rightarrow> (hedge \<Rightarrow> hedge) \<Rightarrow> mesh \<Rightarrow> mesh option" where
  "upd_edge e f m =
     (case edges m e of None \<Rightarrow> None
      | Some r \<Rightarrow> Some (m\<lparr>edges := (edges m)(e \<mapsto> f r)\<rparr>))"

definition upd_vertex :: "vref \<Rightarrow> (hvertex \<Rightarrow> hvertex) \<Rightarrow> mesh \<Rightarrow> mesh option" where
  "upd_vertex v f m =
     (case vertices m v of None \<Rightarrow> None
      | Some r \<Rightarrow> Some (m\<lparr>vertices := (vertices m)(v \<mapsto> f r)\<rparr>))"

definition upd_face :: "fref \<Rightarrow> (hface \<Rightarrow> hface) \<Rightarrow> mesh \<Rightarrow> mesh option" where
  "upd_face f g m =
     (case faces m f of None \<Rightarrow> None
      | Some r \<Rightarrow> Some (m\<lparr>faces := (faces m)(f \<mapsto> g r)\<rparr>))"

definition free_edge :: "eref \<Rightarrow> mesh \<Rightarrow> mesh option" where
  "free_edge e m =
     (case edges m e of None \<Rightarrow> None | Some _ \<Rightarrow> Some (m\<lparr>edges := (edges m)(e := None)\<rparr>))"

definition free_face :: "fref \<Rightarrow> mesh \<Rightarrow> mesh option" where
  "free_face f m =
     (case faces m f of None \<Rightarrow> None | Some _ \<Rightarrow> Some (m\<lparr>faces := (faces m)(f := None)\<rparr>))"

definition free_vertex :: "vref \<Rightarrow> mesh \<Rightarrow> mesh option" where
  "free_vertex v m =
     (case vertices m v of None \<Rightarrow> None
      | Some _ \<Rightarrow> Some (m\<lparr>vertices := (vertices m)(v := None)\<rparr>))"

text \<open>\<open>new HEdge\<close> followed by the assignments of its fields.\<close>

definition new_edge :: "hedge \<Rightarrow> mesh \<Rightarrow> eref \<times> mesh" where
  "new_edge r m = (e_fresh m, m\<lparr>edges := (edges m)(e_fresh m \<mapsto> r), e_fresh := Suc (e_fresh m)\<rparr>)"

text \<open>\<open>new HFace\<close>: no edge, not used, no region.\<close>

definition new_face :: "mesh \<Rightarrow> fref \<times> mesh" where
  "new_face m = (f_fresh m,
     m\<lparr>faces := (faces m)(f_fresh m \<mapsto>
          \<lparr>m_edge = None, m_used = False, m_region = None, f_normal = (0, 0, 0)\<rparr>),
       f_fresh := Suc (f_fresh m)\<rparr>)"

text \<open>\<open>c.erase(find(c.begin(), c.end(), x))\<close>: the first occurrence goes; erasing the
  end iterator is undefined.\<close>

definition erase_first :: "nat \<Rightarrow> nat list \<Rightarrow> nat list option" where
  "erase_first x xs = (if x \<in> set xs then Some (remove1 x xs) else None)"

text \<open>\<open>xs[i]\<close> of a vector.\<close>

definition nth_opt :: "'a list \<Rightarrow> nat \<Rightarrow> 'a option" where
  "nth_opt xs i = (if i < length xs then Some (xs ! i) else None)"

subsection \<open>Accessors of a face\<close>

text \<open>Modelled from the spec: \<open>HalfEdgeFace::operator[]\<close>, \<open>operator()\<close> and
  \<open>calc_normal\<close> are declared outside the given sources. The spec says of a face that it
  holds one half-edge of its 3-cycle and that walking \<open>next\<close> from it visits the three
  edges, and of the builder that it computes the face normal from two edge vectors. So
  \<open>(*f)[k]\<close> is \<open>m_edge\<close> followed by \<open>k\<close> steps of \<open>next\<close>, \<open>(*f)(k)\<close> is the end vertex
  of that edge, and \<open>calc_normal\<close> stores the cross product of two edge vectors.\<close>

definition face_edge :: "mesh \<Rightarrow> fref \<Rightarrow> nat \<Rightarrow> eref option" where
  "face_edge m f k = do {
     fr \<leftarrow> faces m f;
     e0 \<leftarrow> m_edge fr;
     if k = 0 then Some e0
     else do {
       e1 \<leftarrow> nextOf m e0;
       if k = 1 then Some e1 else nextOf m e1 } }"

definition face_vertex :: "mesh \<Rightarrow> fref \<Rightarrow> nat \<Rightarrow> vref option" where
  "face_vertex m f k = do { e \<leftarrow> face_edge m f k; endOf m e }"

definition calc_normal :: "fref \<Rightarrow> mesh \<Rightarrow> mesh option" where
  "calc_normal f m = do {
     a \<leftarrow> face_vertex m f 0; av \<leftarrow> vertices m a;
     b \<leftarrow> face_vertex m f 1; bv \<leftarrow> vertices m b;
     c \<leftarrow> face_vertex m f 2; cv \<leftarrow> vertices m c;
     upd_face f (\<lambda>r. r\<lparr>f_normal :=
        cross (vsub (m_position av) (m_position bv)) (vsub (m_position av) (m_position cv))\<rparr>) m }"

subsection \<open>Vertices\<close>

text \<open>\<open>addVertex\<close>: a new vertex at the back of \<open>m_vertices\<close>; the counter goes up.\<close>

definition addVertex :: "vec \<Rightarrow> mesh \<Rightarrow> mesh" where
  "addVertex v m = m\<lparr>
     vertices := (vertices m)(v_fresh m \<mapsto>
        \<lparr>m_position = v, m_normal = (0, 0, 0), out = [], inn = []\<rparr>),
     m_vertices := m_vertices m @ [v_fresh m],
     m_globalIndex := m_globalIndex m + 1,
     v_fresh := Suc (v_fresh m)\<rparr>"

text \<open>\<open>deleteVertex\<close>: erase from \<open>m_vertices\<close>, decrease the counter, free.\<close>

definition deleteVertex :: "vref \<Rightarrow> mesh \<Rightarrow> mesh option" where
  "deleteVertex v m = do {
     vs \<leftarrow> erase_first v (m_vertices m);
     free_vertex v (m\<lparr>m_vertices := vs, m_globalIndex := m_globalIndex m - 1\<rparr>) }"

text \<open>\<open>addNormal\<close>: the assertion, then the normal of the last vertex.\<close>

definition addNormal :: "vec \<Rightarrow> mesh \<Rightarrow> mesh option" where
  "addNormal n m =
     (if m_globalIndex m \<noteq> int (length (m_vertices m)) \<or> m_vertices m = [] then None
      else upd_vertex (last (m_vertices m)) (\<lambda>r. r\<lparr>m_normal := n\<rparr>) m)"

subsection \<open>The builder\<close>

text \<open>\<open>halfEdgeToVertex(v, next)\<close>: the loop over \<open>v->in\<close> keeps the last edge that ends
  in \<open>v\<close> and starts in \<open>next\<close>.\<close>

fun halfEdgeToVertex_loop ::
  "mesh \<Rightarrow> vref \<Rightarrow> vref \<Rightarrow> eref list \<Rightarrow> eref option \<Rightarrow> eref option option" where
  "halfEdgeToVertex_loop m v nxt [] edge = Some edge"
| "halfEdgeToVertex_loop m v nxt (cur # rest) edge = do {
     c \<leftarrow> edges m cur;
     halfEdgeToVertex_loop m v nxt rest
       (if e_end c = v \<and> e_start c = nxt then Some cur else edge) }"

definition halfEdgeToVertex :: "mesh \<Rightarrow> vref \<Rightarrow> vref \<Rightarrow> eref option option" where
  "halfEdgeToVertex m v nxt = do {
     vr \<leftarrow> vertices m v;
     halfEdgeToVertex_loop m v nxt (inn vr) None }"

text \<open>One round of the loop \<open>for k\<close> of \<open>addTriangle\<close>: the edge from \<open>current\<close> to
  \<open>next\<close> of the new face, taken over from the mesh or created with its pair.\<close>

definition addTriangle_edge :: "fref \<Rightarrow> vref \<Rightarrow> vref \<Rightarrow> mesh \<Rightarrow> (eref \<times> mesh) option" where
  "addTriangle_edge face current nxt m = do {
     edgeToVertex \<leftarrow> halfEdgeToVertex m current nxt;
     (case edgeToVertex of
        Some etv \<Rightarrow> do {
          ek \<leftarrow> pairOf m etv;
          m1 \<leftarrow> upd_edge ek (\<lambda>r. r\<lparr>e_face := Some face\<rparr>) m;
          Some (ek, m1) }
      | None \<Rightarrow> do {
          let edge = e_fresh m;
          let pair = Suc (e_fresh m);
          let (_, m1) = new_edge \<lparr>e_start = current, e_end = nxt, e_pair = Some pair,
                 e_face = Some face, e_next = None, e_used = False\<rparr> m;
          let (_, m2) = new_edge \<lparr>e_start = nxt, e_end = current, e_pair = Some edge,
                 e_face = None, e_next = None, e_used = False\<rparr> m1;
          m3 \<leftarrow> upd_vertex current (\<lambda>r. r\<lparr>out := out r @ [edge]\<rparr>) m2;
          m4 \<leftarrow> upd_vertex nxt (\<lambda>r. r\<lparr>inn := inn r @ [edge]\<rparr>) m3;
          m5 \<leftarrow> upd_vertex current (\<lambda>r. r\<lparr>inn := inn r @ [pair]\<rparr>) m4;
          m6 \<leftarrow> upd_vertex nxt (\<lambda>r. r\<lparr>out := out r @ [pair]\<rparr>) m5;
          Some (edge, m6) }) }"

definition addTriangle :: "nat \<Rightarrow> nat \<Rightarrow> nat \<Rightarrow> mesh \<Rightarrow> mesh option" where
  "addTriangle a b c m = do {
     let (face, m0) = new_face m;
     va \<leftarrow> nth_opt (m_vertices m0) a;
     vb \<leftarrow> nth_opt (m_vertices m0) b;
     (e0, m1) \<leftarrow> addTriangle_edge face va vb m0;
     vc \<leftarrow> nth_opt (m_vertices m1) c;
     (e1, m2) \<leftarrow> addTriangle_edge face vb vc m1;
     (e2, m3) \<leftarrow> addTriangle_edge face vc va m2;
     m4 \<leftarrow> upd_edge e0 (\<lambda>r. r\<lparr>e_next := Some e1\<rparr>) m3;
     m5 \<leftarrow> upd_edge e1 (\<lambda>r. r\<lparr>e_next := Some e2\<rparr>) m4;
     m6 \<leftarrow> upd_edge e2 (\<lambda>r. r\<lparr>e_next := Some e0\<rparr>) m5;
     m7 \<leftarrow> upd_face face (\<lambda>r. r\<lparr>m_edge := Some e0\<rparr>) m6;
     m8 \<leftarrow> calc_normal face m7;
     Some (m8\<lparr>m_faces := m_faces m8 @ [face]\<rparr>) }"




subsection \<open>The topology editor\<close>

text \<open>\<open>deleteEdge(edge, deletePair)\<close>: unlink \<open>edge\<close> from the \<open>out\<close> list of its start
  and the \<open>in\<close> list of its end, the same for the pair when asked, then free.\<close>

definition unlink_edge :: "eref \<Rightarrow> mesh \<Rightarrow> mesh option" where
  "unlink_edge edge m = do {
     s \<leftarrow> startOf m edge;
     sv \<leftarrow> vertices m s;
     os \<leftarrow> erase_first edge (out sv);
     m1 \<leftarrow> upd_vertex s (\<lambda>r. r\<lparr>out := os\<rparr>) m;
     t \<leftarrow> endOf m1 edge;
     tv \<leftarrow> vertices m1 t;
     is \<leftarrow> erase_first edge (inn tv);
     upd_vertex t (\<lambda>r. r\<lparr>inn := is\<rparr>) m1 }"

definition deleteEdge :: "eref \<Rightarrow> bool \<Rightarrow> mesh \<Rightarrow> mesh option" where
  "deleteEdge edge deletePair m = do {
     m1 \<leftarrow> unlink_edge edge m;
     m2 \<leftarrow> (if deletePair then do {
              p \<leftarrow> pairOf m1 edge;
              m' \<leftarrow> unlink_edge p m1;
              p' \<leftarrow> pairOf m' edge;
              free_edge p' m' }
            else Some m1);
     free_edge edge m2 }"

text \<open>\<open>flipEdge(edge)\<close>, statement by statement.\<close>

definition flipEdge :: "eref \<Rightarrow> mesh \<Rightarrow> mesh option" where
  "flipEdge edge m = do {
     p \<leftarrow> pairOf m edge;
     pr \<leftarrow> edges m p;
     er \<leftarrow> edges m edge;
     if e_face pr \<noteq> None \<and> e_face er \<noteq> None then do {
       n1 \<leftarrow> nextOf m edge;
       newEdgeStart \<leftarrow> endOf m n1;
       n2 \<leftarrow> nextOf m p;
       newEdgeEnd \<leftarrow> endOf m n2;
       nn1 \<leftarrow> nextOf m n1;
       m1 \<leftarrow> upd_edge nn1 (\<lambda>r. r\<lparr>e_next := e_next pr\<rparr>) m;
       p1 \<leftarrow> pairOf m1 edge;
       pn1 \<leftarrow> nextOf m1 p1;
       pnn1 \<leftarrow> nextOf m1 pn1;
       er1 \<leftarrow> edges m1 edge;
       m2 \<leftarrow> upd_edge pnn1 (\<lambda>r. r\<lparr>e_next := e_next er1\<rparr>) m1;
       p2 \<leftarrow> pairOf m2 edge;
       pn2 \<leftarrow> nextOf m2 p2;
       pnn2 \<leftarrow> nextOf m2 pn2;
       pnnr \<leftarrow> edges m2 pnn2;
       let (newEdge, m3) = new_edge \<lparr>e_start = newEdgeStart, e_end = newEdgeEnd,
              e_pair = None, e_face = e_face pnnr, e_next = Some pnn2, e_used = False\<rparr> m2;
       m4 \<leftarrow> upd_vertex newEdgeStart (\<lambda>r. r\<lparr>out := out r @ [newEdge]\<rparr>) m3;
       m5 \<leftarrow> upd_vertex newEdgeEnd (\<lambda>r. r\<lparr>inn := inn r @ [newEdge]\<rparr>) m4;
       en5 \<leftarrow> nextOf m5 edge;
       enn5 \<leftarrow> nextOf m5 en5;
       ennr \<leftarrow> edges m5 enn5;
       let (newPair, m6) = new_edge \<lparr>e_start = newEdgeEnd, e_end = newEdgeStart,
              e_pair = Some newEdge, e_face = e_face ennr, e_next = Some enn5,
              e_used = False\<rparr> m5;
       m7 \<leftarrow> upd_vertex newEdgeEnd (\<lambda>r. r\<lparr>out := out r @ [newPair]\<rparr>) m6;
       m8 \<leftarrow> upd_vertex newEdgeStart (\<lambda>r. r\<lparr>inn := inn r @ [newPair]\<rparr>) m7;
       m9 \<leftarrow> upd_edge newEdge (\<lambda>r. r\<lparr>e_pair := Some newPair\<rparr>) m8;
       f9 \<leftarrow> faceOf m9 newEdge;
       m10 \<leftarrow> upd_face f9 (\<lambda>r. r\<lparr>m_edge := Some newEdge\<rparr>) m9;
       g10 \<leftarrow> faceOf m10 newPair;
       m11 \<leftarrow> upd_face g10 (\<lambda>r. r\<lparr>m_edge := Some newPair\<rparr>) m10;
       en11 \<leftarrow> nextOf m11 edge;
       m12 \<leftarrow> upd_edge en11 (\<lambda>r. r\<lparr>e_next := Some newEdge\<rparr>) m11;
       p12 \<leftarrow> pairOf m12 edge;
       pn12 \<leftarrow> nextOf m12 p12;
       m13 \<leftarrow> upd_edge pn12 (\<lambda>r. r\<lparr>e_next := Some newPair\<rparr>) m12;
       a13 \<leftarrow> nextOf m13 newEdge;
       ner13 \<leftarrow> edges m13 newEdge;
       m14 \<leftarrow> upd_edge a13 (\<lambda>r. r\<lparr>e_face := e_face ner13\<rparr>) m13;
       a14 \<leftarrow> nextOf m14 newEdge;
       b14 \<leftarrow> nextOf m14 a14;
       ner14 \<leftarrow> edges m14 newEdge;
       m15 \<leftarrow> upd_edge b14 (\<lambda>r. r\<lparr>e_face := e_face ner14\<rparr>) m14;
       c15 \<leftarrow> nextOf m15 newPair;
       npr15 \<leftarrow> edges m15 newPair;
       m16 \<leftarrow> upd_edge c15 (\<lambda>r. r\<lparr>e_face := e_face npr15\<rparr>) m15;
       c16 \<leftarrow> nextOf m16 newPair;
       d16 \<leftarrow> nextOf m16 c16;
       npr16 \<leftarrow> edges m16 newPair;
       m17 \<leftarrow> upd_edge d16 (\<lambda>r. r\<lparr>e_face := e_face npr16\<rparr>) m16;
       f17 \<leftarrow> faceOf m17 newEdge;
       m18 \<leftarrow> calc_normal f17 m17;
       g18 \<leftarrow> faceOf m18 newPair;
       m19 \<leftarrow> calc_normal g18 m18;
       deleteEdge edge True m19 }
     else Some m }"





text \<open>\<open>collapseEdge(edge)\<close>. The block run for a side that carries a face pairs the
  outer half-edges of the two other edges of the triangle with each other and deletes
  these two edges without their pairs. The base of the block is \<open>edge\<close> on the first
  side and \<open>edge->pair\<close>, read again in every statement, on the second.\<close>

definition collapse_block :: "(mesh \<Rightarrow> eref option) \<Rightarrow> mesh \<Rightarrow> mesh option" where
  "collapse_block base m = do {
     x \<leftarrow> base m;
     n \<leftarrow> nextOf m x;
     nn \<leftarrow> nextOf m n;
     nnp \<leftarrow> pairOf m nn;
     nr \<leftarrow> edges m n;
     m1 \<leftarrow> upd_edge nnp (\<lambda>r. r\<lparr>e_pair := e_pair nr\<rparr>) m;
     x1 \<leftarrow> base m1;
     n1 \<leftarrow> nextOf m1 x1;
     np1 \<leftarrow> pairOf m1 n1;
     nn1 \<leftarrow> nextOf m1 n1;
     nnr1 \<leftarrow> edges m1 nn1;
     m2 \<leftarrow> upd_edge np1 (\<lambda>r. r\<lparr>e_pair := e_pair nnr1\<rparr>) m1;
     x2 \<leftarrow> base m2;
     n2 \<leftarrow> nextOf m2 x2;
     nn2 \<leftarrow> nextOf m2 n2;
     m3 \<leftarrow> deleteEdge nn2 False m2;
     x3 \<leftarrow> base m3;
     n3 \<leftarrow> nextOf m3 x3;
     deleteEdge n3 False m3 }"

text \<open>\<open>m_faces.erase(find(..., f)); delete f\<close>, when the pointer read is not null.\<close>

definition drop_face :: "fref option \<Rightarrow> mesh \<Rightarrow> mesh option" where
  "drop_face fo m =
     (case fo of None \<Rightarrow> Some m
      | Some f \<Rightarrow> do {
          fs \<leftarrow> erase_first f (m_faces m);
          free_face f (m\<lparr>m_faces := fs\<rparr>) })"

text \<open>The two loops that move the edges of \<open>p2\<close> over to \<open>p1\<close>.\<close>

fun rehome_out :: "vref \<Rightarrow> eref list \<Rightarrow> mesh \<Rightarrow> mesh option" where
  "rehome_out p1 [] m = Some m"
| "rehome_out p1 (x # xs) m = do {
     m1 \<leftarrow> upd_edge x (\<lambda>r. r\<lparr>e_start := p1\<rparr>) m;
     m2 \<leftarrow> upd_vertex p1 (\<lambda>r. r\<lparr>out := out r @ [x]\<rparr>) m1;
     rehome_out p1 xs m2 }"

fun rehome_in :: "vref \<Rightarrow> eref list \<Rightarrow> mesh \<Rightarrow> mesh option" where
  "rehome_in p1 [] m = Some m"
| "rehome_in p1 (x # xs) m = do {
     m1 \<leftarrow> upd_edge x (\<lambda>r. r\<lparr>e_end := p1\<rparr>) m;
     m2 \<leftarrow> upd_vertex p1 (\<lambda>r. r\<lparr>inn := inn r @ [x]\<rparr>) m1;
     rehome_in p1 xs m2 }"

text \<open>The loops iterate over the vectors of \<open>p2\<close> while they push to those of \<open>p1\<close>:
  with \<open>p1 = p2\<close> and a vector that is not empty, the iterator is invalidated.\<close>

definition collapseEdge :: "eref \<Rightarrow> mesh \<Rightarrow> mesh option" where
  "collapseEdge edge m = do {
     p1 \<leftarrow> startOf m edge;
     p2 \<leftarrow> endOf m edge;
     v1 \<leftarrow> vertices m p1;
     v2 \<leftarrow> vertices m p2;
     ma \<leftarrow> upd_vertex p1 (\<lambda>r. r\<lparr>m_position := midpoint (m_position v1) (m_position v2)\<rparr>) m;
     er \<leftarrow> edges ma edge;
     mb \<leftarrow> (if e_face er \<noteq> None then collapse_block (\<lambda>s. Some edge) ma else Some ma);
     pb \<leftarrow> pairOf mb edge;
     pbr \<leftarrow> edges mb pb;
     mc \<leftarrow> (if e_face pbr \<noteq> None then collapse_block (\<lambda>s. pairOf s edge) mb else Some mb);
     pc \<leftarrow> pairOf mc edge;
     pcr \<leftarrow> edges mc pc;
     md \<leftarrow> drop_face (e_face pcr) mc;
     erd \<leftarrow> edges md edge;
     me \<leftarrow> drop_face (e_face erd) md;
     mf \<leftarrow> deleteEdge edge True me;
     v2f \<leftarrow> vertices mf p2;
     mg \<leftarrow> (if p1 = p2 \<and> out v2f \<noteq> [] then None else rehome_out p1 (out v2f) mf);
     v2g \<leftarrow> vertices mg p2;
     mh \<leftarrow> (if p1 = p2 \<and> inn v2g \<noteq> [] then None else rehome_in p1 (inn v2g) mg);
     deleteVertex p2 mh }"


subsection \<open>The guarded collapse\<close>

text \<open>\<open>Region::detectFlicker\<close> is a collaborator outside the given sources; it reads the
  positions of the mesh as they are at the moment of the call. It is a parameter \<open>dF\<close> of
  the model: \<open>dF m r f\<close> is the answer of region \<open>r\<close> about face \<open>f\<close> in the state \<open>m\<close>.\<close>

type_synonym flicker = "mesh \<Rightarrow> rref \<Rightarrow> fref \<Rightarrow> bool"

text \<open>\<open>x->face != 0\<close>.\<close>

definition has_face :: "mesh \<Rightarrow> eref \<Rightarrow> bool option" where
  "has_face m x = map_option (\<lambda>r. e_face r \<noteq> None) (edges m x)"

text \<open>The first guard for the side of \<open>x\<close>:
  \<open>x->face != 0 && x->next->pair->face != 0 && x->next->next->pair->face != 0\<close> and then
  \<open>x->next->pair->next->next == x->next->next->pair->next->pair\<close>.\<close>

definition cap_guard :: "mesh \<Rightarrow> eref \<Rightarrow> bool option" where
  "cap_guard m x = do {
     c1 \<leftarrow> has_face m x;
     if \<not> c1 then Some False else do {
       n \<leftarrow> nextOf m x;
       np \<leftarrow> pairOf m n;
       c2 \<leftarrow> has_face m np;
       if \<not> c2 then Some False else do {
         nn \<leftarrow> nextOf m n;
         nnp \<leftarrow> pairOf m nn;
         c3 \<leftarrow> has_face m nnp;
         if \<not> c3 then Some False else do {
           a \<leftarrow> nextOf m np;
           ar \<leftarrow> edges m a;
           b \<leftarrow> nextOf m nnp;
           br \<leftarrow> edges m b;
           Some (e_next ar = e_pair br) } } } }"

text \<open>The loop that counts the edges from \<open>edge->start\<close> to \<open>edge->end\<close>.\<close>

fun count_to :: "mesh \<Rightarrow> vref \<Rightarrow> eref list \<Rightarrow> nat option" where
  "count_to m t [] = Some 0"
| "count_to m t (x # xs) = do {
     r \<leftarrow> edges m x;
     c \<leftarrow> count_to m t xs;
     Some (if e_end r = t then Suc c else c) }"

text \<open>The third guard for the side of \<open>x\<close>:
  \<open>x->face != 0 && x->next->pair->face == 0 && x->next->next->pair->face == 0\<close>.\<close>

definition open_guard :: "mesh \<Rightarrow> eref \<Rightarrow> bool option" where
  "open_guard m x = do {
     c1 \<leftarrow> has_face m x;
     if \<not> c1 then Some False else do {
       n \<leftarrow> nextOf m x;
       np \<leftarrow> pairOf m n;
       c2 \<leftarrow> has_face m np;
       if c2 then Some False else do {
         nn \<leftarrow> nextOf m n;
         nnp \<leftarrow> pairOf m nn;
         c3 \<leftarrow> has_face m nnp;
         Some (\<not> c3) } } }"

text \<open>The fourth guard, the two nested loops over \<open>edge->end->out\<close> and the \<open>out\<close> list
  of the end of each of these edges.\<close>

fun hole_inner :: "mesh \<Rightarrow> vref \<Rightarrow> eref \<Rightarrow> eref list \<Rightarrow> bool option" where
  "hole_inner m s o1 [] = Some False"
| "hole_inner m s o1 (o2 # rest) = do {
     r1 \<leftarrow> edges m o1;
     hit \<leftarrow> (if e_face r1 \<noteq> None then Some False else do {
               r2 \<leftarrow> edges m o2;
               Some (e_face r2 = None \<and> e_end r2 = s) });
     if hit then Some True else hole_inner m s o1 rest }"

fun hole_outer :: "mesh \<Rightarrow> vref \<Rightarrow> eref list \<Rightarrow> bool option" where
  "hole_outer m s [] = Some False"
| "hole_outer m s (o1 # rest) = do {
     t \<leftarrow> endOf m o1;
     tv \<leftarrow> vertices m t;
     hit \<leftarrow> hole_inner m s o1 (out tv);
     if hit then Some True else hole_outer m s rest }"

text \<open>The loop of a flicker test over the \<open>out\<close> list of the moved vertex: the face
  beyond each outgoing edge, when it is not the face of \<open>edge->pair\<close> and not null, is
  shown to its region.\<close>

fun flicker_loop :: "flicker \<Rightarrow> mesh \<Rightarrow> eref \<Rightarrow> eref list \<Rightarrow> bool option" where
  "flicker_loop dF m edge [] = Some False"
| "flicker_loop dF m edge (x # xs) = do {
     xp \<leftarrow> pairOf m x;
     xpr \<leftarrow> edges m xp;
     p \<leftarrow> pairOf m edge;
     pr \<leftarrow> edges m p;
     hit \<leftarrow> (if e_face xpr = e_face pr then Some False
             else case e_face xpr of None \<Rightarrow> Some False
               | Some f \<Rightarrow> do {
                   fr \<leftarrow> faces m f;
                   rg \<leftarrow> m_region fr;
                   _ \<leftarrow> regions m rg;
                   Some (dF m rg f) });
     if hit then Some True else flicker_loop dF m edge xs }"

definition safeCollapseEdge :: "flicker \<Rightarrow> eref \<Rightarrow> mesh \<Rightarrow> (bool \<times> mesh) option" where
  "safeCollapseEdge dF edge m = do {
     g1 \<leftarrow> cap_guard m edge;
     if g1 then Some (False, m) else do {
     p \<leftarrow> pairOf m edge;
     g1' \<leftarrow> cap_guard m p;
     if g1' then Some (False, m) else do {
     s \<leftarrow> startOf m edge;
     sv \<leftarrow> vertices m s;
     t \<leftarrow> endOf m edge;
     edgeCnt \<leftarrow> count_to m t (out sv);
     if edgeCnt \<noteq> 1 then Some (False, m) else do {
     g3 \<leftarrow> open_guard m edge;
     g3' \<leftarrow> (if g3 then Some True else open_guard m p);
     if g3' then Some (False, m) else do {
     tv \<leftarrow> vertices m t;
     g4 \<leftarrow> hole_outer m s (out tv);
     if g4 then Some (False, m) else do {
     let origin = m_position sv;
     m1 \<leftarrow> upd_vertex s (\<lambda>r. r\<lparr>m_position := midpoint (m_position sv) (m_position tv)\<rparr>) m;
     s1 \<leftarrow> vertices m1 s;
     g5 \<leftarrow> flicker_loop dF m1 edge (out s1);
     if g5 then do {
       m' \<leftarrow> upd_vertex s (\<lambda>r. r\<lparr>m_position := origin\<rparr>) m1;
       Some (False, m') }
     else do {
     t2 \<leftarrow> vertices m1 t;
     s2 \<leftarrow> vertices m1 s;
     let origin = m_position t2;
     m2 \<leftarrow> upd_vertex t (\<lambda>r. r\<lparr>m_position := midpoint (m_position s2) (m_position t2)\<rparr>) m1;
     t3 \<leftarrow> vertices m2 t;
     g6 \<leftarrow> flicker_loop dF m2 edge (out t3);
     if g6 then do {
       m' \<leftarrow> upd_vertex t (\<lambda>r. r\<lparr>m_position := origin\<rparr>) m2;
       Some (False, m') }
     else do {
       m3 \<leftarrow> collapseEdge edge m2;
       Some (True, m3) } } } } } } } }"

subsection \<open>Region growing\<close>

text \<open>Modelled from the spec: \<open>Region::addFace\<close> is declared outside the given sources.
  The spec says that region growing adds the visited faces to the region and that a face
  holds an optional region reference, which the hole filler reads from a neighbouring
  face. So \<open>addFace\<close> appends the face to the region's list and makes the face point to the
  region.\<close>

definition region_addFace :: "rref \<Rightarrow> fref \<Rightarrow> mesh \<Rightarrow> mesh option" where
  "region_addFace rg f m = do {
     r \<leftarrow> regions m rg;
     let m1 = m\<lparr>regions := (regions m)(rg \<mapsto> r\<lparr>r_faces := r_faces r @ [f]\<rparr>)\<rparr>;
     upd_face f (\<lambda>x. x\<lparr>m_region := Some rg\<rparr>) m1 }"

text \<open>\<open>HalfEdgeFace::getFaceNormal\<close> is outside the given sources as well; it is the
  parameter \<open>gfn\<close>, a function of the face alone: region growing writes the markers
  \<open>m_used\<close>, the region pointers and the face list of the region, and none of the
  positions and links a face normal is computed from. The recursion of \<open>regionGrowing(start_face, normal, angle, region)\<close>
  runs on fuel: \<open>None\<close> is undefined behaviour or fuel used up. The loop \<open>for k\<close> is
  \<open>regionGrowing_loop\<close>, the function body \<open>regionGrowing\<close>; \<open>++neighbor_cnt += r\<close> adds
  \<open>r + 1\<close>.\<close>

fun regionGrowing_loop ::
    "nat \<Rightarrow> (fref \<Rightarrow> vec option) \<Rightarrow> fref \<Rightarrow> vec \<Rightarrow> real \<Rightarrow> rref \<Rightarrow> nat list \<Rightarrow> nat \<Rightarrow> mesh
      \<Rightarrow> (nat \<times> mesh) option"
  and regionGrowing ::
    "nat \<Rightarrow> (fref \<Rightarrow> vec option) \<Rightarrow> fref \<Rightarrow> vec \<Rightarrow> real \<Rightarrow> rref \<Rightarrow> mesh
      \<Rightarrow> (nat \<times> mesh) option" where
  "regionGrowing_loop fuel gfn start_face normal angle rg [] cnt m = Some (cnt, m)"
| "regionGrowing_loop fuel gfn start_face normal angle rg (k # ks) cnt m = do {
     ek \<leftarrow> face_edge m start_face k;
     p \<leftarrow> pairOf m ek;
     pr \<leftarrow> edges m p;
     (case e_face pr of
        None \<Rightarrow> regionGrowing_loop fuel gfn start_face normal angle rg ks cnt m
      | Some g \<Rightarrow> do {
          gr \<leftarrow> faces m g;
          if m_used gr then regionGrowing_loop fuel gfn start_face normal angle rg ks cnt m
          else do {
            n \<leftarrow> gfn g;
            if \<bar>dot n normal\<bar> > angle then do {
              (r, m') \<leftarrow> regionGrowing fuel gfn g normal angle rg m;
              regionGrowing_loop fuel gfn start_face normal angle rg ks (cnt + 1 + r) m' }
            else regionGrowing_loop fuel gfn start_face normal angle rg ks cnt m } }) }"
| "regionGrowing 0 gfn start_face normal angle rg m = None"
| "regionGrowing (Suc fuel) gfn start_face normal angle rg m = do {
     m1 \<leftarrow> upd_face start_face (\<lambda>r. r\<lparr>m_used := True\<rparr>) m;
     m2 \<leftarrow> region_addFace rg start_face m1;
     regionGrowing_loop fuel gfn start_face normal angle rg [0, 1, 2] 0 m2 }"


subsection \<open>The retriangulation phase of fillHoles\<close>

text \<open>The test of the three nested \<open>if\<close>s for the indices \<open>i\<close> and \<open>j\<close>:
  \<open>back->end == hole[i]->start\<close>, \<open>hole[i]->end == hole[j]->start\<close>,
  \<open>hole[j]->end == back->start\<close>.\<close>

definition cycle_cond :: "mesh \<Rightarrow> eref list \<Rightarrow> nat \<Rightarrow> nat \<Rightarrow> bool option" where
  "cycle_cond m hole i j = do {
     be \<leftarrow> endOf m (last hole);
     hi \<leftarrow> nth_opt hole i;
     his \<leftarrow> startOf m hi;
     if be \<noteq> his then Some False else do {
       hie \<leftarrow> endOf m hi;
       hj \<leftarrow> nth_opt hole j;
       hjs \<leftarrow> startOf m hj;
       if hie \<noteq> hjs then Some False else do {
         hje \<leftarrow> endOf m hj;
         bs \<leftarrow> startOf m (last hole);
         Some (hje = bs) } } }"

text \<open>The loops \<open>for i\<close>, \<open>for j\<close> stop at the first pair of indices that passes the test.\<close>

fun first_cycle :: "mesh \<Rightarrow> eref list \<Rightarrow> (nat \<times> nat) list \<Rightarrow> (nat \<times> nat) option option" where
  "first_cycle m hole [] = Some None"
| "first_cycle m hole ((i, j) # rest) = do {
     c \<leftarrow> cycle_cond m hole i j;
     if c then Some (Some (i, j)) else first_cycle m hole rest }"

text \<open>One round of \<open>for e\<close>: \<open>(*f)[e]->face = f\<close> and the erase of \<open>(*f)[e]\<close> from the
  hole.\<close>

definition claim_edge :: "fref \<Rightarrow> nat \<Rightarrow> eref list \<times> mesh \<Rightarrow> (eref list \<times> mesh) option" where
  "claim_edge f e hm = (case hm of (hole, m) \<Rightarrow> do {
     x \<leftarrow> face_edge m f e;
     m1 \<leftarrow> upd_edge x (\<lambda>r. r\<lparr>e_face := Some f\<rparr>) m;
     y \<leftarrow> face_edge m1 f e;
     hole' \<leftarrow> erase_first y hole;
     Some (hole', m1) })"

text \<open>The body run for a 3-cycle found at \<open>i\<close>, \<open>j\<close>.\<close>

definition make_face :: "nat \<Rightarrow> nat \<Rightarrow> eref list \<Rightarrow> mesh \<Rightarrow> (eref list \<times> mesh) option" where
  "make_face i j hole m = do {
     let (f, m0) = new_face m;
     m1 \<leftarrow> upd_face f (\<lambda>r. r\<lparr>m_edge := Some (last hole)\<rparr>) m0;
     hi \<leftarrow> nth_opt hole i;
     m2 \<leftarrow> upd_edge (last hole) (\<lambda>r. r\<lparr>e_next := Some hi\<rparr>) m1;
     hi' \<leftarrow> nth_opt hole i;
     hj \<leftarrow> nth_opt hole j;
     m3 \<leftarrow> upd_edge hi' (\<lambda>r. r\<lparr>e_next := Some hj\<rparr>) m2;
     hj' \<leftarrow> nth_opt hole j;
     m4 \<leftarrow> upd_edge hj' (\<lambda>r. r\<lparr>e_next := Some (last hole)\<rparr>) m3;
     hm5 \<leftarrow> claim_edge f 0 (hole, m4);
     hm6 \<leftarrow> claim_edge f 1 hm5;
     (hole7, m7) \<leftarrow> claim_edge f 2 hm6;
     e0 \<leftarrow> face_edge m7 f 0;
     p \<leftarrow> pairOf m7 e0;
     g \<leftarrow> faceOf m7 p;
     gr \<leftarrow> faces m7 g;
     rg \<leftarrow> m_region gr;
     m8 \<leftarrow> region_addFace rg f m7;
     Some (hole7, m8\<lparr>m_faces := m_faces m8 @ [f]\<rparr>) }"

text \<open>One pass of \<open>while(current_hole.size() > 0)\<close>: the search, then the new face or
  \<open>pop_back\<close>.\<close>

definition fill_pass :: "eref list \<Rightarrow> mesh \<Rightarrow> (eref list \<times> mesh) option" where
  "fill_pass hole m = do {
     found \<leftarrow> first_cycle m hole
        (List.product [0..<length hole] [0..<length hole]);
     (case found of
        Some (i, j) \<Rightarrow> make_face i j hole m
      | None \<Rightarrow> Some (butlast hole, m)) }"

lemma erase_first_length:
  "erase_first x xs = Some ys \<Longrightarrow> Suc (length ys) = length xs"
  by (auto simp: erase_first_def length_remove1 split: if_splits)
    (metis Suc_pred length_pos_if_in_set)

lemma claim_edge_length:
  "claim_edge f e (hole, m) = Some (hole', m') \<Longrightarrow> Suc (length hole') = length hole"
  by (auto simp: claim_edge_def bind_eq_Some_conv dest: erase_first_length)

lemma make_face_length:
  assumes "make_face i j hole m = Some (hole', m')"
  shows "length hole' + 3 = length hole"
proof -
  from assms obtain m4 h5 m5 h6 m6 m7 where
    c0: "claim_edge (f_fresh m) 0 (hole, m4) = Some (h5, m5)" and
    c1: "claim_edge (f_fresh m) 1 (h5, m5) = Some (h6, m6)" and
    c2: "claim_edge (f_fresh m) 2 (h6, m6) = Some (hole', m7)"
    by (auto simp: make_face_def new_face_def Let_def bind_eq_Some_conv)
  from claim_edge_length[OF c0] claim_edge_length[OF c1] claim_edge_length[OF c2]
  show ?thesis by simp
qed

lemma fill_pass_shrinks:
  assumes "fill_pass hole m = Some (hole', m')" and "hole \<noteq> []"
  shows "length hole' < length hole"
proof -
  from assms(1) obtain found where
    r: "(case found of Some (i, j) \<Rightarrow> make_face i j hole m
         | None \<Rightarrow> Some (butlast hole, m)) = Some (hole', m')"
    by (auto simp: fill_pass_def bind_eq_Some_conv)
  show ?thesis
  proof (cases found)
    case None
    with r have "hole' = butlast hole" by simp
    with assms(2) show ?thesis by simp
  next
    case (Some ij)
    obtain i j where "ij = (i, j)" by (cases ij)
    with Some r have "make_face i j hole m = Some (hole', m')" by simp
    from make_face_length[OF this] show ?thesis by simp
  qed
qed

function retriangulate :: "eref list \<Rightarrow> mesh \<Rightarrow> mesh option" where
  "retriangulate hole m =
     (if hole = [] then Some m
      else case fill_pass hole m of
             None \<Rightarrow> None
           | Some (hole', m') \<Rightarrow> retriangulate hole' m')"
  by pat_completeness auto
termination
  by (relation "measure (\<lambda>(hole, m). length hole)") (auto dest: fill_pass_shrinks)


subsection \<open>The finalizer\<close>

text \<open>The output buffers of \<open>finalize\<close>. \<open>m_nVertices\<close> and \<open>m_nFaces\<close> take the sizes
  cast to \<open>uint32_t\<close>, and the lengths of the arrays are computed from them in 32 bits.
  The index buffer holds \<open>unsigned int\<close>. A write beyond the end of an array is
  undefined.\<close>

record buffers =
  m_nVertices :: nat
  m_nFaces :: nat
  m_vertexBuffer :: "real list"
  m_normalBuffer :: "real list"
  m_colorBuffer :: "real list"
  m_indexBuffer :: "nat list"

definition u32 :: "nat \<Rightarrow> nat" where
  "u32 n = n mod 2 ^ 32"

definition wr :: "'a list \<Rightarrow> nat \<Rightarrow> 'a \<Rightarrow> 'a list option" where
  "wr xs i v = (if i < length xs then Some (xs[i := v]) else None)"

text \<open>The loop over \<open>m_vertices\<close>: position, negated normal, the colour 0.8, and the
  entry of \<open>index_map\<close>.\<close>

fun finalize_vertices ::
  "mesh \<Rightarrow> vref list \<Rightarrow> nat \<Rightarrow> buffers \<times> (vref \<Rightarrow> nat option)
    \<Rightarrow> (buffers \<times> (vref \<Rightarrow> nat option)) option" where
  "finalize_vertices m [] i acc = Some acc"
| "finalize_vertices m (v # vs) i acc = (case acc of (b, index_map) \<Rightarrow> do {
     r \<leftarrow> vertices m v;
     vb0 \<leftarrow> wr (m_vertexBuffer b) (3 * i) (fst (m_position r));
     vb1 \<leftarrow> wr vb0 (3 * i + 1) (fst (snd (m_position r)));
     vb2 \<leftarrow> wr vb1 (3 * i + 2) (snd (snd (m_position r)));
     nb0 \<leftarrow> wr (m_normalBuffer b) (3 * i) (- fst (m_normal r));
     nb1 \<leftarrow> wr nb0 (3 * i + 1) (- fst (snd (m_normal r)));
     nb2 \<leftarrow> wr nb1 (3 * i + 2) (- snd (snd (m_normal r)));
     cb0 \<leftarrow> wr (m_colorBuffer b) (3 * i) (8 / 10);
     cb1 \<leftarrow> wr cb0 (3 * i + 1) (8 / 10);
     cb2 \<leftarrow> wr cb1 (3 * i + 2) (8 / 10);
     finalize_vertices m vs (Suc i)
       (b\<lparr>m_vertexBuffer := vb2, m_normalBuffer := nb2, m_colorBuffer := cb2\<rparr>,
        index_map(v \<mapsto> i)) })"

text \<open>\<open>index_map[v]\<close> of the unordered map gives 0 for a key that is not there, stored
  into an \<open>unsigned int\<close>.\<close>

definition index_of :: "(vref \<Rightarrow> nat option) \<Rightarrow> vref \<Rightarrow> nat" where
  "index_of index_map v = (case index_map v of None \<Rightarrow> 0 | Some i \<Rightarrow> u32 i)"

text \<open>The three colour writes for the corner whose index is at \<open>k\<close> in the index
  buffer.\<close>

definition paint :: "real \<times> real \<times> real \<Rightarrow> nat \<Rightarrow> buffers \<Rightarrow> buffers option" where
  "paint rgb k b = (case rgb of (r, g, bl) \<Rightarrow> do {
     ix \<leftarrow> nth_opt (m_indexBuffer b) k;
     c0 \<leftarrow> wr (m_colorBuffer b) (u32 (ix * 3 + 0)) r;
     c1 \<leftarrow> wr c0 (u32 (ix * 3 + 1)) g;
     c2 \<leftarrow> wr c1 (u32 (ix * 3 + 2)) bl;
     Some (b\<lparr>m_colorBuffer := c2\<rparr>) })"

fun finalize_faces ::
  "mesh \<Rightarrow> (vref \<Rightarrow> nat option) \<Rightarrow> fref list \<Rightarrow> nat \<Rightarrow> buffers \<Rightarrow> buffers option" where
  "finalize_faces m index_map [] i b = Some b"
| "finalize_faces m index_map (f # fs) i b = do {
     v0 \<leftarrow> face_vertex m f 0;
     i0 \<leftarrow> wr (m_indexBuffer b) (3 * i) (index_of index_map v0);
     v1 \<leftarrow> face_vertex m f 1;
     i1 \<leftarrow> wr i0 (3 * i + 1) (index_of index_map v1);
     v2 \<leftarrow> face_vertex m f 2;
     i2 \<leftarrow> wr i1 (3 * i + 2) (index_of index_map v2);
     fr \<leftarrow> faces m f;
     surface_class \<leftarrow> (case m_region fr of None \<Rightarrow> Some 1
                       | Some rg \<Rightarrow> map_option m_region_number (regions m rg));
     let rgb = (if m_colorRegions m
                then (\<bar>cos (real_of_int surface_class)\<bar>,
                      \<bar>sin (real_of_int (surface_class * 30))\<bar>,
                      \<bar>sin (real_of_int (surface_class * 2))\<bar>)
                else (0, 8 / 10, 0));
     b1 \<leftarrow> paint rgb (3 * i) (b\<lparr>m_indexBuffer := i2\<rparr>);
     b2 \<leftarrow> paint rgb (3 * i + 1) b1;
     b3 \<leftarrow> paint rgb (3 * i + 2) b2;
     finalize_faces m index_map fs (Suc i) b3 }"

definition finalize :: "mesh \<Rightarrow> buffers option" where
  "finalize m = do {
     let nV = u32 (length (m_vertices m));
     let nF = u32 (length (m_faces m));
     let b0 = \<lparr>m_nVertices = nV, m_nFaces = nF,
                m_vertexBuffer = replicate (u32 (3 * nV)) 0,
                m_normalBuffer = replicate (u32 (3 * nV)) 0,
                m_colorBuffer = replicate (u32 (3 * nV)) 0,
                m_indexBuffer = replicate (u32 (3 * nF)) 0\<rparr>;
     (b1, index_map) \<leftarrow> finalize_vertices m (m_vertices m) 0 (b0, \<lambda>_. None);
     finalize_faces m index_map (m_faces m) 0 b1 }"


subsection \<open>Example meshes\<close>

text \<open>The four corners of the unit square, and the facts that evaluate the operations
  on closed meshes.\<close>

definition quad_vertices :: mesh where
  "quad_vertices =
     addVertex (0, 1, 0) (addVertex (1, 1, 0) (addVertex (1, 0, 0) (addVertex (0, 0, 0) empty_mesh)))"

lemmas mesh_eval =
  quad_vertices_def addVertex_def empty_mesh_def addTriangle_def addTriangle_edge_def
  new_face_def new_edge_def nth_opt_def halfEdgeToVertex_def upd_edge_def upd_vertex_def
  upd_face_def calc_normal_def face_vertex_def face_edge_def nextOf_def pairOf_def endOf_def
  startOf_def faceOf_def Let_def vsub_def cross_def

text \<open>The unit square split along the diagonal 0-2, the same three corners covered from
  both sides, and a triangle with a repeated corner.\<close>

definition one_triangle :: mesh where
  "one_triangle = the (addTriangle 0 1 2 quad_vertices)"

definition unit_square :: mesh where
  "unit_square = the (addTriangle 0 1 2 quad_vertices \<bind> addTriangle 0 2 3)"

definition pillow :: mesh where
  "pillow = the (addTriangle 0 1 2 quad_vertices \<bind> addTriangle 1 0 2)"

definition folded :: mesh where
  "folded = the (addTriangle 0 1 0 quad_vertices)"

text \<open>The unit square after \<open>deleteVertex\<close> of its corner 3: the half-edges to and from
  that corner stay.\<close>

definition beheaded :: mesh where
  "beheaded = the (deleteVertex 3 unit_square)"

text \<open>A mesh with the region 0 that holds the faces 0 and 1, as a segmentation pass
  leaves it, and with the empty region 0.\<close>

definition empty_region :: "mesh \<Rightarrow> mesh" where
  "empty_region m = m\<lparr>regions := (regions m)(0 \<mapsto> \<lparr>m_region_number = 0, r_faces = []\<rparr>)\<rparr>"

definition one_region :: "mesh \<Rightarrow> mesh" where
  "one_region m = the (region_addFace 0 0 (empty_region m) \<bind> region_addFace 0 1)"

definition pos :: "mesh \<Rightarrow> vref \<Rightarrow> vec option" where
  "pos m v = map_option m_position (vertices m v)"

text \<open>The normal that \<open>calc_normal\<close> stored, as an instance of \<open>getFaceNormal\<close>.\<close>

definition stored_normal :: "mesh \<Rightarrow> fref \<Rightarrow> vec option" where
  "stored_normal m f = map_option f_normal (faces m f)"

subsection \<open>The graph invariants and the predicates of the properties\<close>

text \<open>The pairing invariant at a half-edge that is present: \<open>e.pair\<close> is present,
  \<open>e.pair.pair == e\<close>, \<open>e.pair.start == e.end\<close>, \<open>e.pair.end == e.start\<close>.\<close>

definition pairing_at :: "mesh \<Rightarrow> eref \<Rightarrow> bool" where
  "pairing_at m e = (case edges m e of None \<Rightarrow> True
     | Some r \<Rightarrow> (case e_pair r of None \<Rightarrow> False
        | Some p \<Rightarrow> (case edges m p of None \<Rightarrow> False
           | Some pr \<Rightarrow> e_pair pr = Some e \<and> e_start pr = e_end r \<and> e_end pr = e_start r)))"

definition pairing_inv :: "mesh \<Rightarrow> bool" where
  "pairing_inv m = (\<forall>e. pairing_at m e)"

text \<open>The face-cycle invariant at a face that is present: three steps of \<open>next\<close> from
  \<open>m_edge\<close> lead back to it, and the three edges carry the face.\<close>

definition cycle_at :: "mesh \<Rightarrow> fref \<Rightarrow> bool" where
  "cycle_at m f = (case faces m f of None \<Rightarrow> True
     | Some fr \<Rightarrow> (case m_edge fr of None \<Rightarrow> False
        | Some e0 \<Rightarrow> (case nextOf m e0 of None \<Rightarrow> False
           | Some e1 \<Rightarrow> (case nextOf m e1 of None \<Rightarrow> False
              | Some e2 \<Rightarrow> nextOf m e2 = Some e0 \<and> faceOf m e0 = Some f \<and>
                  faceOf m e1 = Some f \<and> faceOf m e2 = Some f))))"

definition cycle_inv :: "mesh \<Rightarrow> bool" where
  "cycle_inv m = (\<forall>f. cycle_at m f)"

text \<open>The marker \<open>m_used\<close> of a face that is present, the face list of a region, and the
  test of region growing on the normal of a face.\<close>

definition unused :: "mesh \<Rightarrow> fref \<Rightarrow> bool" where
  "unused m g = (case faces m g of None \<Rightarrow> False | Some r \<Rightarrow> \<not> m_used r)"

definition used :: "mesh \<Rightarrow> fref \<Rightarrow> bool" where
  "used m g = (case faces m g of None \<Rightarrow> False | Some r \<Rightarrow> m_used r)"

definition region_faces :: "mesh \<Rightarrow> rref \<Rightarrow> fref list" where
  "region_faces m rg = (case regions m rg of None \<Rightarrow> [] | Some r \<Rightarrow> r_faces r)"

definition admitted :: "(fref \<Rightarrow> vec option) \<Rightarrow> vec \<Rightarrow> real \<Rightarrow> fref \<Rightarrow> bool" where
  "admitted gfn normal angle g =
     (case gfn g of None \<Rightarrow> False | Some n \<Rightarrow> \<bar>dot n normal\<bar> > angle)"

text \<open>What the faces \<open>added\<close> to the region between the states \<open>m\<close> and \<open>m'\<close> of a run of
  region growing satisfy.\<close>

definition grown ::
  "(fref \<Rightarrow> vec option) \<Rightarrow> vec \<Rightarrow> real \<Rightarrow> rref \<Rightarrow> mesh \<Rightarrow> mesh \<Rightarrow> fref list \<Rightarrow> bool" where
  "grown gfn normal angle rg m m' added \<longleftrightarrow>
     regions m rg \<noteq> None \<and> regions m' rg \<noteq> None \<and>
     region_faces m' rg = region_faces m rg @ added \<and>
     distinct added \<and>
     (\<forall>g \<in> set added. unused m g \<and> used m' g \<and> admitted gfn normal angle g) \<and>
     (\<forall>g. used m g \<longrightarrow> used m' g) \<and>
     (\<forall>g. unused m' g \<longrightarrow> unused m g)"

text \<open>What \<open>regionGrowing\<close> dereferences at a face is present: the three half-edges of
  the face, their pairs, and for a pair that carries a face, this face and its normal.\<close>

definition face_ready :: "(fref \<Rightarrow> vec option) \<Rightarrow> mesh \<Rightarrow> fref \<Rightarrow> bool" where
  "face_ready gfn m f = list_all (\<lambda>k.
     case face_edge m f k of None \<Rightarrow> False
     | Some ek \<Rightarrow> (case pairOf m ek of None \<Rightarrow> False
        | Some p \<Rightarrow> (case edges m p of None \<Rightarrow> False
           | Some pr \<Rightarrow> (case e_face pr of None \<Rightarrow> True
              | Some g \<Rightarrow> faces m g \<noteq> None \<and> gfn g \<noteq> None)))) [0, 1, 2]"

text \<open>The region is present, the store holds finitely many faces, and every face of the
  store can be visited.\<close>

definition growable :: "(fref \<Rightarrow> vec option) \<Rightarrow> rref \<Rightarrow> mesh \<Rightarrow> bool" where
  "growable gfn rg m \<longleftrightarrow> regions m rg \<noteq> None \<and> finite (dom (faces m)) \<and>
     (\<forall>f. faces m f \<noteq> None \<longrightarrow> face_ready gfn m f)"

text \<open>Two meshes with the same half-edges and the same \<open>m_edge\<close> of every face: region
  growing writes markers and region pointers only.\<close>

definition links :: "mesh \<Rightarrow> mesh \<Rightarrow> bool" where
  "links m m' \<longleftrightarrow> edges m' = edges m \<and>
     (\<forall>f. map_option m_edge (faces m' f) = map_option m_edge (faces m f))"

text \<open>The registration of edges in the lists of their end points, as the builder looks
  it up and leaves it.\<close>







text \<open>What the retriangulation phase expects of the edges of a hole: each is present and
  no loop, its pair is present, runs the other way and carries a face whose region is
  present; no edge occurs twice in the list; no face is stored at a handle that \<open>new\<close> has
  not given out yet.\<close>

definition hole_edge_ok :: "mesh \<Rightarrow> eref \<Rightarrow> bool" where
  "hole_edge_ok m x = (case edges m x of None \<Rightarrow> False
     | Some r \<Rightarrow> e_start r \<noteq> e_end r \<and> (case e_pair r of None \<Rightarrow> False
        | Some p \<Rightarrow> (case edges m p of None \<Rightarrow> False
           | Some pr \<Rightarrow> e_start pr = e_end r \<and> e_end pr = e_start r \<and>
               (case e_face pr of None \<Rightarrow> False
                | Some g \<Rightarrow> (case faces m g of None \<Rightarrow> False
                   | Some gr \<Rightarrow> (case m_region gr of None \<Rightarrow> False
                      | Some rg \<Rightarrow> regions m rg \<noteq> None))))))"

definition hole_ok :: "mesh \<Rightarrow> eref list \<Rightarrow> bool" where
  "hole_ok m hole \<longleftrightarrow> distinct hole \<and> list_all (hole_edge_ok m) hole \<and>
     (\<forall>k. faces m (f_fresh m + k) = None)"

text \<open>One triangle in the region 0; its three outer half-edges 1, 3, 5 bound a hole.\<close>

definition tri_region :: mesh where
  "tri_region = the (addTriangle 0 1 2 quad_vertices \<bind> (\<lambda>m. region_addFace 0 0 (empty_region m)))"


text \<open>The quad around an interior edge. The half-edge \<open>x\<close> runs from \<open>a\<close> to \<open>b\<close>,
  carries the face \<open>f\<close> and has the next edge \<open>n\<close>.\<close>

definition face_edge_at :: "mesh \<Rightarrow> eref \<Rightarrow> vref \<Rightarrow> vref \<Rightarrow> fref \<Rightarrow> eref \<Rightarrow> bool" where
  "face_edge_at m x a b f n =
     (case edges m x of None \<Rightarrow> False
      | Some r \<Rightarrow> e_start r = a \<and> e_end r = b \<and> e_face r = Some f \<and> e_next r = Some n)"

text \<open>\<open>x\<close> is in the \<open>out\<close> list of \<open>a\<close> and the \<open>in\<close> list of \<open>b\<close>.\<close>

definition linked :: "mesh \<Rightarrow> eref \<Rightarrow> vref \<Rightarrow> vref \<Rightarrow> bool" where
  "linked m x a b =
     (case vertices m a of None \<Rightarrow> False
      | Some va \<Rightarrow> x \<in> set (out va) \<and>
          (case vertices m b of None \<Rightarrow> False | Some vb \<Rightarrow> x \<in> set (inn vb)))"

text \<open>The \<open>out\<close> and the \<open>in\<close> list of a vertex.\<close>

definition outs :: "mesh \<Rightarrow> vref \<Rightarrow> eref list" where
  "outs m v = (case vertices m v of None \<Rightarrow> [] | Some r \<Rightarrow> out r)"

definition inns :: "mesh \<Rightarrow> vref \<Rightarrow> eref list" where
  "inns m v = (case vertices m v of None \<Rightarrow> [] | Some r \<Rightarrow> inn r)"

text \<open>The edge \<open>e\<close> from \<open>A\<close> to \<open>B\<close> with its pair \<open>p\<close>, the triangle
  \<open>A B C\<close> of face \<open>f1\<close> on the side of \<open>e\<close> with the further edges \<open>n1\<close>, \<open>nn1\<close>, and
  the triangle \<open>B A D\<close> of face \<open>f2\<close> on the side of \<open>p\<close> with the further edges \<open>n2\<close>,
  \<open>nn2\<close>: four corners and six half-edges that differ, the diagonal registered at its
  end points, and no edge stored at a handle that \<open>new\<close> has not given out yet.\<close>

definition quad ::
  "mesh \<Rightarrow> eref \<Rightarrow> eref \<Rightarrow> vref \<Rightarrow> vref \<Rightarrow> vref \<Rightarrow> vref \<Rightarrow> eref \<Rightarrow> eref \<Rightarrow> eref \<Rightarrow> eref
     \<Rightarrow> fref \<Rightarrow> fref \<Rightarrow> bool" where
  "quad m e p A B C D n1 nn1 n2 nn2 f1 f2 \<longleftrightarrow>
     distinct [e, p, n1, nn1, n2, nn2] \<and> distinct [A, B, C, D] \<and> f1 \<noteq> f2 \<and>
     face_edge_at m e A B f1 n1 \<and> face_edge_at m n1 B C f1 nn1 \<and> face_edge_at m nn1 C A f1 e \<and>
     face_edge_at m p B A f2 n2 \<and> face_edge_at m n2 A D f2 nn2 \<and> face_edge_at m nn2 D B f2 p \<and>
     pairOf m e = Some p \<and> pairOf m p = Some e \<and>
     linked m e A B \<and> linked m p B A \<and>
     vertices m C \<noteq> None \<and> vertices m D \<noteq> None \<and>
     faces m f1 \<noteq> None \<and> faces m f2 \<noteq> None \<and>
     (\<forall>k. edges m (e_fresh m + k) = None)"

text \<open>No half-edge is stored at a handle that \<open>new\<close> has not given out yet.\<close>

definition edges_fresh :: "mesh \<Rightarrow> bool" where
  "edges_fresh m = (\<forall>k. edges m (e_fresh m + k) = None)"







text \<open>
  The face cycle invariant is kept by the operations that attach and detach whole triangles.
  \<open>faces_fresh\<close> says that no face lives at or above the allocation counter, \<open>sound\<close> bundles
  the pairing invariant, the cycle invariant and that freshness.
\<close>

definition faces_fresh :: "mesh \<Rightarrow> bool" where
  "faces_fresh m = (\<forall>k. faces m (f_fresh m + k) = None)"







text \<open>
  The predicates of the property of \<open>collapseEdge\<close>.
\<close>

text \<open>
  The adjacency lists are consistent: every half-edge that is present is in the \<open>out\<close> list
  of its start and in the \<open>in\<close> list of its end, and the lists of a vertex hold no handle
  twice and only half-edges that are present and start, respectively end, at that vertex.
  \<open>deleteEdge\<close> and \<open>collapseEdge\<close> erase from these lists with \<open>find\<close>, and the loops of
  \<open>collapseEdge\<close> re-home exactly the half-edges they find there.
\<close>

definition lists_ok :: "mesh \<Rightarrow> bool" where
  "lists_ok m \<longleftrightarrow>
     (\<forall>k r. edges m k = Some r \<longrightarrow>
        (\<exists>sv tv. vertices m (e_start r) = Some sv \<and> k \<in> set (out sv) \<and>
                 vertices m (e_end r) = Some tv \<and> k \<in> set (inn tv))) \<and>
     (\<forall>v vr. vertices m v = Some vr \<longrightarrow> distinct (out vr) \<and> distinct (inn vr) \<and>
        (\<forall>k \<in> set (out vr). \<exists>r. edges m k = Some r \<and> e_start r = v) \<and>
        (\<forall>k \<in> set (inn vr). \<exists>r. edges m k = Some r \<and> e_end r = v))"

text \<open>The vertex store after \<open>x\<close> is erased from the \<open>out\<close> list of \<open>s\<close> and from the \<open>in\<close>
  list of \<open>t\<close>.\<close>

definition strike :: "eref \<Rightarrow> vref \<Rightarrow> vref \<Rightarrow> (vref \<Rightarrow> hvertex option) \<Rightarrow> vref \<Rightarrow> hvertex option" where
  "strike x s t vs = (\<lambda>v. map_option (\<lambda>r. r\<lparr>out := (if v = s then remove1 x (out r) else out r),
       inn := (if v = t then remove1 x (inn r) else inn r)\<rparr>) (vs v))"

text \<open>The vertex that stands for \<open>v\<close> once \<open>p2\<close> is merged into \<open>p1\<close>.\<close>

definition merged :: "vref \<Rightarrow> vref \<Rightarrow> vref \<Rightarrow> vref" where
  "merged p1 p2 v = (if v = p2 then p1 else v)"

text \<open>The pairing invariant on a store of half-edges, with the end points compared after a
  renaming \<open>\<sigma>\<close> of the vertices: between the first statement of \<open>collapseEdge\<close> and its
  two loops, paired half-edges run between the same vertices only up to the merge of
  \<open>p2\<close> into \<open>p1\<close>.\<close>

definition pairing_mod :: "(vref \<Rightarrow> vref) \<Rightarrow> (eref \<Rightarrow> hedge option) \<Rightarrow> bool" where
  "pairing_mod \<sigma> E \<longleftrightarrow> (\<forall>k r. E k = Some r \<longrightarrow>
     (\<exists>p pr. e_pair r = Some p \<and> E p = Some pr \<and> e_pair pr = Some k \<and>
        \<sigma> (e_start pr) = \<sigma> (e_end r) \<and> \<sigma> (e_end pr) = \<sigma> (e_start r)))"

text \<open>A store \<open>E'\<close> keeps the face and the \<open>next\<close> pointer of the half-edges of \<open>E\<close>, creates
  none, and frees only half-edges whose face reference is in \<open>F\<close>.\<close>

definition keeps :: "fref option set \<Rightarrow> (eref \<Rightarrow> hedge option) \<Rightarrow> (eref \<Rightarrow> hedge option) \<Rightarrow> bool" where
  "keeps F E E' \<longleftrightarrow> (\<forall>k. case E k of None \<Rightarrow> E' k = None
     | Some r \<Rightarrow> (case E' k of None \<Rightarrow> e_face r \<in> F
        | Some r' \<Rightarrow> e_face r' = e_face r \<and> e_next r' = e_next r))"

text \<open>The side of \<open>x\<close> is either without a face, or a triangle on three different
  vertices: \<open>x\<close>, \<open>x->next\<close> and \<open>x->next->next\<close> are present, chained head to tail back to
  the start of \<open>x\<close>, carry the face of \<open>x\<close>, and the third corner is neither end of \<open>x\<close>.\<close>

definition side_ok :: "(eref \<Rightarrow> hedge option) \<Rightarrow> eref \<Rightarrow> bool" where
  "side_ok E x = (case E x of None \<Rightarrow> False
     | Some xr \<Rightarrow> (case e_face xr of None \<Rightarrow> True
        | Some f \<Rightarrow> (case e_next xr of None \<Rightarrow> False
           | Some n \<Rightarrow> (case E n of None \<Rightarrow> False
              | Some nr \<Rightarrow> (case e_next nr of None \<Rightarrow> False
                 | Some nn \<Rightarrow> (case E nn of None \<Rightarrow> False
                    | Some nnr \<Rightarrow>
                        e_face nr = Some f \<and> e_face nnr = Some f \<and>
                        e_start nr = e_end xr \<and> e_start nnr = e_end nr \<and>
                        e_end nnr = e_start xr \<and>
                        e_end nr \<noteq> e_start xr \<and> e_end nr \<noteq> e_end xr))))))"

text \<open>A face reference that is not null names a face that is present and in \<open>m_faces\<close>.\<close>

definition face_listed :: "mesh \<Rightarrow> fref option \<Rightarrow> bool" where
  "face_listed m fo = (case fo of None \<Rightarrow> True
     | Some f \<Rightarrow> faces m f \<noteq> None \<and> f \<in> set (m_faces m))"

text \<open>
  Where \<open>collapseEdge\<close> applies: the half-edge is present, its end points differ, its end is
  in \<open>m_vertices\<close>, its two sides are triangles or without a face, their faces are listed,
  and when both sides carry a face, these are two faces.
\<close>

definition collapse_site :: "mesh \<Rightarrow> eref \<Rightarrow> bool" where
  "collapse_site m e = (case edges m e of None \<Rightarrow> False
     | Some r \<Rightarrow> e_start r \<noteq> e_end r \<and> e_end r \<in> set (m_vertices m) \<and>
         side_ok (edges m) e \<and> face_listed m (e_face r) \<and>
         (case e_pair r of None \<Rightarrow> False
          | Some p \<Rightarrow> side_ok (edges m) p \<and>
              (case edges m p of None \<Rightarrow> False
               | Some pr \<Rightarrow> face_listed m (e_face pr) \<and>
                   (e_face r = None \<or> e_face pr = None \<or> e_face r \<noteq> e_face pr))))"

text \<open>The number of sides of \<open>e\<close> that carry a face.\<close>

definition sides :: "mesh \<Rightarrow> eref \<Rightarrow> nat" where
  "sides m e = (if faceOf m e = None then 0 else 1) +
               (if (pairOf m e \<bind> faceOf m) = None then 0 else 1)"


section \<open>Properties\<close>

subsection \<open>The finalizer\<close>

lemma wr_Some: "wr xs i v = Some ys \<Longrightarrow> i < length xs \<and> ys = xs[i := v]"
  by (auto simp: wr_def split: if_splits)

lemma paint_keeps:
  "paint rgb k b = Some b' \<Longrightarrow>
     m_normalBuffer b' = m_normalBuffer b \<and> m_vertexBuffer b' = m_vertexBuffer b"
  by (cases rgb) (auto simp: paint_def bind_eq_Some_conv)

lemma finalize_faces_keeps:
  "finalize_faces m im fs i b = Some b' \<Longrightarrow>
     m_normalBuffer b' = m_normalBuffer b \<and> m_vertexBuffer b' = m_vertexBuffer b"
proof (induction fs arbitrary: i b)
  case Nil
  then show ?case by simp
next
  case (Cons f fs)
  show ?case
    using Cons.prems
    by (auto simp: bind_eq_Some_conv Let_def dest!: paint_keeps Cons.IH)
qed

lemma finalize_vertices_writes:
  "finalize_vertices m vs i (b, im) = Some (b', im') \<Longrightarrow>
     length (m_normalBuffer b') = length (m_normalBuffer b) \<and>
     length (m_vertexBuffer b') = length (m_vertexBuffer b) \<and>
     (\<forall>q < 3 * i. m_normalBuffer b' ! q = m_normalBuffer b ! q \<and>
                  m_vertexBuffer b' ! q = m_vertexBuffer b ! q) \<and>
     (\<forall>k < length vs. \<forall>r. vertices m (vs ! k) = Some r \<longrightarrow>
        m_normalBuffer b' ! (3 * (i + k)) = - fst (m_normal r) \<and>
        m_normalBuffer b' ! (3 * (i + k) + 1) = - fst (snd (m_normal r)) \<and>
        m_normalBuffer b' ! (3 * (i + k) + 2) = - snd (snd (m_normal r)) \<and>
        m_vertexBuffer b' ! (3 * (i + k)) = fst (m_position r) \<and>
        m_vertexBuffer b' ! (3 * (i + k) + 1) = fst (snd (m_position r)) \<and>
        m_vertexBuffer b' ! (3 * (i + k) + 2) = snd (snd (m_position r)))"
proof (induction vs arbitrary: i b im)
  case Nil
  then show ?case by simp
next
  case (Cons v vs)
  from Cons.prems obtain r vb0 vb1 vb2 nb0 nb1 nb2 cb2 where
    live: "vertices m v = Some r" and
    v0: "wr (m_vertexBuffer b) (3 * i) (fst (m_position r)) = Some vb0" and
    v1: "wr vb0 (Suc (3 * i)) (fst (snd (m_position r))) = Some vb1" and
    v2: "wr vb1 (Suc (Suc (3 * i))) (snd (snd (m_position r))) = Some vb2" and
    n0: "wr (m_normalBuffer b) (3 * i) (- fst (m_normal r)) = Some nb0" and
    n1: "wr nb0 (Suc (3 * i)) (- fst (snd (m_normal r))) = Some nb1" and
    n2: "wr nb1 (Suc (Suc (3 * i))) (- snd (snd (m_normal r))) = Some nb2" and
    rest: "finalize_vertices m vs (Suc i)
       (b\<lparr>m_vertexBuffer := vb2, m_normalBuffer := nb2, m_colorBuffer := cb2\<rparr>,
        im(v \<mapsto> i)) = Some (b', im')"
    by (auto simp: bind_eq_Some_conv)
  note w = wr_Some[OF v0] wr_Some[OF v1] wr_Some[OF v2] wr_Some[OF n0] wr_Some[OF n1] wr_Some[OF n2]
  note ih = Cons.IH[OF rest]
  have len: "length (m_normalBuffer b') = length (m_normalBuffer b)"
            "length (m_vertexBuffer b') = length (m_vertexBuffer b)"
    using ih w by simp_all
  have frame: "\<forall>q < 3 * i. m_normalBuffer b' ! q = m_normalBuffer b ! q \<and>
                  m_vertexBuffer b' ! q = m_vertexBuffer b ! q"
    using ih w by simp
  have here: "m_normalBuffer b' ! (3 * i) = - fst (m_normal r)"
      "m_normalBuffer b' ! (3 * i + 1) = - fst (snd (m_normal r))"
      "m_normalBuffer b' ! (3 * i + 2) = - snd (snd (m_normal r))"
      "m_vertexBuffer b' ! (3 * i) = fst (m_position r)"
      "m_vertexBuffer b' ! (3 * i + 1) = fst (snd (m_position r))"
      "m_vertexBuffer b' ! (3 * i + 2) = snd (snd (m_position r))"
    using ih w by simp_all
  have later: "\<forall>k < length vs. \<forall>r. vertices m (vs ! k) = Some r \<longrightarrow>
        m_normalBuffer b' ! (3 * (Suc i + k)) = - fst (m_normal r) \<and>
        m_normalBuffer b' ! (3 * (Suc i + k) + 1) = - fst (snd (m_normal r)) \<and>
        m_normalBuffer b' ! (3 * (Suc i + k) + 2) = - snd (snd (m_normal r)) \<and>
        m_vertexBuffer b' ! (3 * (Suc i + k)) = fst (m_position r) \<and>
        m_vertexBuffer b' ! (3 * (Suc i + k) + 1) = fst (snd (m_position r)) \<and>
        m_vertexBuffer b' ! (3 * (Suc i + k) + 2) = snd (snd (m_position r))"
    using ih by blast
  have all: "\<forall>k < length (v # vs). \<forall>r. vertices m ((v # vs) ! k) = Some r \<longrightarrow>
        m_normalBuffer b' ! (3 * (i + k)) = - fst (m_normal r) \<and>
        m_normalBuffer b' ! (3 * (i + k) + 1) = - fst (snd (m_normal r)) \<and>
        m_normalBuffer b' ! (3 * (i + k) + 2) = - snd (snd (m_normal r)) \<and>
        m_vertexBuffer b' ! (3 * (i + k)) = fst (m_position r) \<and>
        m_vertexBuffer b' ! (3 * (i + k) + 1) = fst (snd (m_position r)) \<and>
        m_vertexBuffer b' ! (3 * (i + k) + 2) = snd (snd (m_position r))"
  proof (intro allI impI)
    fix k r'
    assume k: "k < length (v # vs)" and r': "vertices m ((v # vs) ! k) = Some r'"
    show "m_normalBuffer b' ! (3 * (i + k)) = - fst (m_normal r') \<and>
        m_normalBuffer b' ! (3 * (i + k) + 1) = - fst (snd (m_normal r')) \<and>
        m_normalBuffer b' ! (3 * (i + k) + 2) = - snd (snd (m_normal r')) \<and>
        m_vertexBuffer b' ! (3 * (i + k)) = fst (m_position r') \<and>
        m_vertexBuffer b' ! (3 * (i + k) + 1) = fst (snd (m_position r')) \<and>
        m_vertexBuffer b' ! (3 * (i + k) + 2) = snd (snd (m_position r'))"
    proof (cases k)
      case 0
      with r' live have "r' = r" by simp
      with 0 here show ?thesis by simp
    next
      case (Suc k')
      with k r' have "k' < length vs" "vertices m (vs ! k') = Some r'" by simp_all
      with later Suc show ?thesis by simp
    qed
  qed
  from len frame all show ?case by blast
qed

text \<open>C9. For the vertex at position \<open>i\<close> of \<open>m_vertices\<close>, \<open>finalize\<close> writes the
  negated components of the stored normal into the normal buffer at \<open>3 i\<close>, \<open>3 i + 1\<close>,
  \<open>3 i + 2\<close>, and the components of the stored position, as they are, into the vertex
  buffer at the same places.\<close>

theorem finalize_flips_normals:
  assumes "finalize m = Some b"
      and "i < length (m_vertices m)"
      and "vertices m (m_vertices m ! i) = Some r"
  shows "m_normalBuffer b ! (3 * i) = - fst (m_normal r) \<and>
         m_normalBuffer b ! (3 * i + 1) = - fst (snd (m_normal r)) \<and>
         m_normalBuffer b ! (3 * i + 2) = - snd (snd (m_normal r)) \<and>
         m_vertexBuffer b ! (3 * i) = fst (m_position r) \<and>
         m_vertexBuffer b ! (3 * i + 1) = fst (snd (m_position r)) \<and>
         m_vertexBuffer b ! (3 * i + 2) = snd (snd (m_position r))"
proof -
  from assms(1) obtain b0 b1 im where
    vs: "finalize_vertices m (m_vertices m) 0 (b0, \<lambda>_. None) = Some (b1, im)" and
    fs: "finalize_faces m im (m_faces m) 0 b1 = Some b"
    by (auto simp: finalize_def Let_def bind_eq_Some_conv)
  from finalize_vertices_writes[OF vs] assms(2,3)
  have "m_normalBuffer b1 ! (3 * i) = - fst (m_normal r) \<and>
         m_normalBuffer b1 ! (3 * i + 1) = - fst (snd (m_normal r)) \<and>
         m_normalBuffer b1 ! (3 * i + 2) = - snd (snd (m_normal r)) \<and>
         m_vertexBuffer b1 ! (3 * i) = fst (m_position r) \<and>
         m_vertexBuffer b1 ! (3 * i + 1) = fst (snd (m_position r)) \<and>
         m_vertexBuffer b1 ! (3 * i + 2) = snd (snd (m_position r))"
    by simp
  with finalize_faces_keeps[OF fs] show ?thesis by simp
qed


text \<open>The theorem at a mesh of one vertex with position \<open>(4, 5, 6)\<close> and normal
  \<open>(1, 2, 3)\<close>.\<close>

theorem finalize_flips_normals_witness:
  "\<exists>m b r. addNormal (1, 2, 3) (addVertex (4, 5, 6) empty_mesh) = Some m \<and>
     finalize m = Some b \<and> 0 < length (m_vertices m) \<and>
     vertices m (m_vertices m ! 0) = Some r \<and>
     m_normalBuffer b ! 0 = - 1 \<and> m_normalBuffer b ! 1 = - 2 \<and> m_normalBuffer b ! 2 = - 3 \<and>
     m_vertexBuffer b ! 0 = 4 \<and> m_vertexBuffer b ! 1 = 5 \<and> m_vertexBuffer b ! 2 = 6"
proof -
  obtain m where m: "addNormal (1, 2, 3) (addVertex (4, 5, 6) empty_mesh) = Some m"
    and vs: "m_vertices m = [0]"
    and r: "vertices m 0 = Some \<lparr>m_position = (4, 5, 6), m_normal = (1, 2, 3), out = [], inn = []\<rparr>"
    and fs: "m_faces m = []"
    by (simp add: addNormal_def mesh_eval)
  have "\<exists>b. finalize m = Some b"
    by (simp add: finalize_def Let_def vs fs r wr_def u32_def)
  then obtain b where b: "finalize m = Some b" ..
  have i: "0 < length (m_vertices m)" by (simp add: vs)
  have r0: "vertices m (m_vertices m ! 0) =
      Some \<lparr>m_position = (4, 5, 6), m_normal = (1, 2, 3), out = [], inn = []\<rparr>"
    by (simp add: vs r)
  from finalize_flips_normals[OF b i r0] m b i r0 show ?thesis by (simp add: numeral_2_eq_2)
qed

subsection \<open>Flipping a boundary edge\<close>

text \<open>C10. When \<open>edge\<close> or its pair carries no face, \<open>flipEdge(edge)\<close> returns the mesh
  it was given: every store, every list and every counter is the same.\<close>

theorem flipEdge_boundary_unchanged:
  assumes "edges m e = Some er" and "e_pair er = Some p" and "edges m p = Some pr"
      and "e_face er = None \<or> e_face pr = None"
  shows "flipEdge e m = Some m"
  using assms by (auto simp: flipEdge_def pairOf_def)

text \<open>The theorem at the mesh of one triangle, whose edge 0 has the faceless pair 1.\<close>

theorem flipEdge_boundary_unchanged_witness:
  "\<exists>m er pr. addTriangle 0 1 2 quad_vertices = Some m \<and> edges m 0 = Some er \<and>
     e_pair er = Some 1 \<and> edges m 1 = Some pr \<and> (e_face er = None \<or> e_face pr = None) \<and>
     flipEdge 0 m = Some m"
proof -
  obtain m er pr where m: "addTriangle 0 1 2 quad_vertices = Some m"
    and e: "edges m 0 = Some er" and p: "e_pair er = Some 1"
    and q: "edges m 1 = Some pr" and f: "e_face er = None \<or> e_face pr = None"
    by (simp add: mesh_eval)
  from flipEdge_boundary_unchanged[OF e p q f] m e p q f show ?thesis by blast
qed


subsection \<open>The guarded collapse\<close>

text \<open>C3. The claim asks that a call of \<open>safeCollapseEdge\<close> that returns false leaves both
  end points where they were. On the unit square with its two faces in one region, for the
  edge 2 from vertex 1 to vertex 2 and a flicker heuristic that reports face 1 only, the
  first flicker test passes, the second one fires: the call returns false, vertex 2 is
  back at \<open>(1, 1, 0)\<close>, and vertex 1, which was at \<open>(1, 0, 0)\<close>, stays at the midpoint
  \<open>(1, 1/2, 0)\<close>.\<close>

theorem safeCollapseEdge_second_flicker_leaves_start_moved:
  "map_option (\<lambda>(ok, m'). (ok, pos m' 1, pos m' 2))
       (safeCollapseEdge (\<lambda>m r f. f = 1) 2 (one_region unit_square))
     = Some (False, Some (1, 1 / 2, 0), Some (1, 1, 0)) \<and>
   pos (one_region unit_square) 1 = Some (1, 0, 0) \<and>
   pos (one_region unit_square) 2 = Some (1, 1, 0)"
  by code_simp

subsection \<open>Region growing\<close>

lemma grown_refl: "regions m rg \<noteq> None \<Longrightarrow> grown gfn normal angle rg m m []"
  by (simp add: grown_def)

lemma grown_trans:
  assumes "grown gfn normal angle rg m m1 xs" and "grown gfn normal angle rg m1 m2 ys"
  shows "grown gfn normal angle rg m m2 (xs @ ys)"
proof -
  have d: "set xs \<inter> set ys = {}"
  proof -
    { fix g assume "g \<in> set xs" "g \<in> set ys"
      with assms have "used m1 g" "unused m1 g" by (auto simp: grown_def)
      then have False by (auto simp: used_def unused_def split: option.splits) }
    then show ?thesis by blast
  qed
  show ?thesis
    using assms d unfolding grown_def
    by (auto)
qed

lemma mark_add:
  assumes "upd_face f (\<lambda>r. r\<lparr>m_used := True\<rparr>) m = Some m1"
      and "region_addFace rg f m1 = Some m2"
  shows "regions m rg \<noteq> None \<and> regions m2 rg \<noteq> None \<and>
         region_faces m2 rg = region_faces m rg @ [f] \<and> used m2 f \<and>
         (\<forall>g. used m g \<longrightarrow> used m2 g) \<and>
         (\<forall>g. unused m2 g \<longrightarrow> unused m g \<and> g \<noteq> f)"
  using assms
  by (auto simp: upd_face_def region_addFace_def region_faces_def used_def unused_def
       bind_eq_Some_conv Let_def split: option.splits if_splits)

lemma grow_loop:
  "regionGrowing_loop fuel gfn f normal angle rg ks cnt m = Some (cnt', m') \<Longrightarrow>
      regions m rg \<noteq> None \<Longrightarrow>
      \<exists>added. cnt' = cnt + length added \<and> grown gfn normal angle rg m m' added"
  and grow_fun:
  "regionGrowing fuel gfn f normal angle rg m = Some (cnt', m') \<Longrightarrow>
      \<exists>added. cnt' = length added \<and>
          region_faces m' rg = region_faces m rg @ f # added \<and> regions m rg \<noteq> None \<and>
          regions m' rg \<noteq> None \<and>
          distinct (f # added) \<and> used m' f \<and>
          (\<forall>g \<in> set added. unused m g \<and> used m' g \<and> admitted gfn normal angle g) \<and>
          (\<forall>g. used m g \<longrightarrow> used m' g) \<and>
          (\<forall>g. unused m' g \<longrightarrow> unused m g \<and> g \<noteq> f)"
proof (induction fuel gfn f normal angle rg ks cnt m and fuel gfn f normal angle rg m
    arbitrary: cnt' m' and cnt' m' rule: regionGrowing_loop_regionGrowing.induct)
  case (1 fuel gfn start_face normal angle rg cnt m)
  then show ?case by (auto simp: grown_refl)
next
  case (2 fuel gfn start_face normal angle rg k ks cnt m)
  show ?case
  proof -
    note run = "2.prems"(1) and live = "2.prems"(2)
    from run obtain ek p pr where
      ek: "face_edge m start_face k = Some ek" and p: "pairOf m ek = Some p"
      and pr: "edges m p = Some pr"
      by (auto simp: bind_eq_Some_conv)
    show ?thesis
    proof (cases "e_face pr")
      case None
      with run ek p pr have "regionGrowing_loop fuel gfn start_face normal angle rg ks cnt m = Some (cnt', m')"
        by simp
      with "2.IH"(1)[OF ek p pr None] live show ?thesis by blast
    next
      case (Some g)
      from run ek p pr Some obtain gr where gr: "faces m g = Some gr"
        by (auto simp: bind_eq_Some_conv)
      show ?thesis
      proof (cases "m_used gr")
        case True
        with run ek p pr Some gr have "regionGrowing_loop fuel gfn start_face normal angle rg ks cnt m = Some (cnt', m')"
          by simp
        with "2.IH"(2)[OF ek p pr Some gr True] live show ?thesis by blast
      next
        case False
        from run ek p pr Some gr False obtain n where n: "gfn g = Some n"
          by (auto simp: bind_eq_Some_conv)
        show ?thesis
        proof (cases "\<bar>dot n normal\<bar> > angle")
          case no: False
          with run ek p pr Some gr False n have "regionGrowing_loop fuel gfn start_face normal angle rg ks cnt m = Some (cnt', m')"
            by simp
          with "2.IH"(5)[OF ek p pr Some gr False n no] live show ?thesis by blast
        next
          case yes: True
          with run ek p pr Some gr False n obtain r m1 where
            rec: "regionGrowing fuel gfn g normal angle rg m = Some (r, m1)" and
            rest: "regionGrowing_loop fuel gfn start_face normal angle rg ks (cnt + 1 + r) m1 = Some (cnt', m')"
            by (auto simp: bind_eq_Some_conv)
          from "2.IH"(3)[OF ek p pr Some gr False n yes] rec obtain a1 where
            a1: "r = length a1" "region_faces m1 rg = region_faces m rg @ g # a1"
              "regions m1 rg \<noteq> None" "distinct (g # a1)" "used m1 g"
              "\<forall>x \<in> set a1. unused m x \<and> used m1 x \<and> admitted gfn normal angle x"
              "\<forall>x. used m x \<longrightarrow> used m1 x" "\<forall>x. unused m1 x \<longrightarrow> unused m x \<and> x \<noteq> g"
            by blast
          have g0: "unused m g" "admitted gfn normal angle g"
            using gr False n yes by (simp_all add: unused_def admitted_def)
          have first: "grown gfn normal angle rg m m1 (g # a1)"
            unfolding grown_def using a1 g0 live by auto
          from "2.IH"(4)[OF ek p pr Some gr False n yes rec refl rest a1(3)]
          obtain a2 where a2: "cnt' = cnt + 1 + r + length a2" "grown gfn normal angle rg m1 m' a2"
            by blast
          from grown_trans[OF first a2(2)] a2(1) a1(1)
          show ?thesis by (intro exI[of _ "(g # a1) @ a2"]) simp
        qed
      qed
    qed
  qed
next
  case (3 gfn start_face normal angle rg m)
  then show ?case by simp
next
  case (4 fuel gfn start_face normal angle rg m)
  show ?case
  proof -
    note run = "4.prems"
    then obtain m1 m2 where
      m1: "upd_face start_face (\<lambda>r. r\<lparr>m_used := True\<rparr>) m = Some m1" and
      m2: "region_addFace rg start_face m1 = Some m2" and
      loop: "regionGrowing_loop fuel gfn start_face normal angle rg [0, 1, 2] 0 m2 = Some (cnt', m')"
      by (auto simp: bind_eq_Some_conv)
    note ma = mark_add[OF m1 m2]
    from "4.IH"[OF m1 m2] loop ma obtain added where
      ad: "cnt' = length added" "grown gfn normal angle rg m2 m' added"
      by auto
    from ad(2) ma
    show ?thesis
      using ad(1) unfolding grown_def
      by (intro exI[of _ added]) auto
  qed
qed


lemma links_refl: "links m m" by (simp add: links_def)

lemma links_trans: "links a b \<Longrightarrow> links b c \<Longrightarrow> links a c"
  by (simp add: links_def)

lemma links_face_edge: "links m m' \<Longrightarrow> face_edge m' f k = face_edge m f k"
proof -
  assume l: "links m m'"
  then have e: "edges m' = edges m" and
    f: "map_option m_edge (faces m' f) = map_option m_edge (faces m f)"
    by (simp_all add: links_def)
  have n: "nextOf m' = nextOf m" using e by (simp add: nextOf_def fun_eq_iff)
  show ?thesis
  proof (cases "faces m f")
    case None
    with f have "faces m' f = None" by simp
    with None show ?thesis by (simp add: face_edge_def)
  next
    case (Some fr)
    with f obtain fr' where "faces m' f = Some fr'" "m_edge fr' = m_edge fr" by auto
    with Some show ?thesis by (simp add: face_edge_def n cong: if_cong)
  qed
qed

lemma links_dom: "links m m' \<Longrightarrow> (faces m' f = None) = (faces m f = None)"
proof -
  assume "links m m'"
  then have "map_option m_edge (faces m' f) = map_option m_edge (faces m f)"
    by (simp add: links_def)
  then show ?thesis by (cases "faces m f"; cases "faces m' f") simp_all
qed

lemma links_growable:
  assumes l: "links m m'" and r: "regions m' rg \<noteq> None" and g: "growable gfn rg m"
  shows "growable gfn rg m'"
proof -
  from l have e: "edges m' = edges m" by (simp add: links_def)
  have d: "dom (faces m') = dom (faces m)"
    using links_dom[OF l] by (auto simp: dom_def)
  have p: "pairOf m' = pairOf m" using e by (simp add: pairOf_def fun_eq_iff)
  have "face_ready gfn m' f = face_ready gfn m f" for f
    unfolding face_ready_def
    by (simp add: links_face_edge[OF l] p e links_dom[OF l] cong: option.case_cong)
  with g r d show ?thesis
    by (simp add: growable_def links_dom[OF l])
qed

lemma mark_links:
  assumes "upd_face f (\<lambda>r. r\<lparr>m_used := True\<rparr>) m = Some m1"
      and "region_addFace rg f m1 = Some m2"
  shows "links m m2"
  using assms
  by (auto simp: upd_face_def region_addFace_def links_def bind_eq_Some_conv Let_def
       split: option.splits if_splits)

lemma mark_defined:
  assumes "faces m f \<noteq> None" "regions m rg \<noteq> None"
  shows "\<exists>m1 m2. upd_face f (\<lambda>r. r\<lparr>m_used := True\<rparr>) m = Some m1 \<and>
           region_addFace rg f m1 = Some m2"
  using assms by (auto simp: upd_face_def region_addFace_def Let_def)

lemma face_readyD:
  assumes "face_ready gfn m f" "k \<in> {0, 1, 2}"
  shows "\<exists>ek p pr. face_edge m f k = Some ek \<and> pairOf m ek = Some p \<and> edges m p = Some pr \<and>
           (\<forall>g. e_face pr = Some g \<longrightarrow> (\<exists>gr n. faces m g = Some gr \<and> gfn g = Some n))"
  using assms by (auto simp: face_ready_def split: option.splits)

lemma unused_finite: "finite (dom (faces m)) \<Longrightarrow> finite {g. unused m g}"
  by (rule finite_subset[of _ "dom (faces m)"]) (auto simp: unused_def split: option.splits)

lemma grow_total_loop:
  "growable gfn rg m \<Longrightarrow> faces m f \<noteq> None \<Longrightarrow> set ks \<subseteq> {0, 1, 2} \<Longrightarrow>
     card {g. unused m g} \<le> fuel \<Longrightarrow>
     \<exists>cnt' m'. regionGrowing_loop fuel gfn f normal angle rg ks cnt m = Some (cnt', m') \<and>
        links m m'"
  and grow_total_fun:
  "growable gfn rg m \<Longrightarrow> faces m f \<noteq> None \<Longrightarrow> card {g. unused m g \<and> g \<noteq> f} < fuel \<Longrightarrow>
     \<exists>cnt' m'. regionGrowing fuel gfn f normal angle rg m = Some (cnt', m') \<and> links m m'"
proof (induction fuel gfn f normal angle rg ks cnt m and fuel gfn f normal angle rg m
    rule: regionGrowing_loop_regionGrowing.induct)
  case (1 fuel gfn start_face normal angle rg cnt m)
  then show ?case by (simp add: links_refl)
next
  case (2 fuel gfn start_face normal angle rg k ks cnt m)
  note gr = "2.prems"(1) and live = "2.prems"(2) and ks = "2.prems"(3) and bound = "2.prems"(4)
  from gr live have rdy: "face_ready gfn m start_face" and fin: "finite (dom (faces m))"
    and reg: "regions m rg \<noteq> None"
    by (simp_all add: growable_def)
  from ks have k: "k \<in> {0, 1, 2}" and ks': "set ks \<subseteq> {0, 1, 2}" by auto
  from face_readyD[OF rdy k] obtain ek p pr where
    ek: "face_edge m start_face k = Some ek" and p: "pairOf m ek = Some p"
    and pr: "edges m p = Some pr"
    and nb: "\<And>g. e_face pr = Some g \<Longrightarrow> \<exists>gr n. faces m g = Some gr \<and> gfn g = Some n"
    by blast
  show ?case
  proof (cases "e_face pr")
    case None
    from "2.IH"(1)[OF ek p pr None gr live ks' bound] ek p pr None show ?thesis by simp
  next
    case (Some g)
    from nb[OF Some] obtain gr' n where g': "faces m g = Some gr'" and n: "gfn g = Some n"
      by blast
    show ?thesis
    proof (cases "m_used gr'")
      case True
      from "2.IH"(2)[OF ek p pr Some g' True gr live ks' bound] ek p pr Some g' True
      show ?thesis by simp
    next
      case False
      show ?thesis
      proof (cases "\<bar>dot n normal\<bar> > angle")
        case no: False
        from "2.IH"(5)[OF ek p pr Some g' False n no gr live ks' bound]
          ek p pr Some g' False n no
        show ?thesis by simp
      next
        case yes: True
        have ug: "unused m g" using g' False by (simp add: unused_def)
        have eq: "{h. unused m h \<and> h \<noteq> g} = {h. unused m h} - {g}" by auto
        have "card ({h. unused m h} - {g}) < card {h. unused m h}"
          by (rule card_Diff1_less[OF unused_finite[OF fin]]) (simp add: ug)
        with bound have b1: "card {h. unused m h \<and> h \<noteq> g} < fuel"
          unfolding eq by simp
        have gl: "faces m g \<noteq> None" using g' by simp
        from "2.IH"(3)[OF ek p pr Some g' False n yes gr gl b1] obtain r m1 where
          rec: "regionGrowing fuel gfn g normal angle rg m = Some (r, m1)" and l1: "links m m1"
          by blast
        from grow_fun[OF rec] have r1: "regions m1 rg \<noteq> None"
          and mono: "\<forall>h. unused m1 h \<longrightarrow> unused m h" by blast+
        have gr1: "growable gfn rg m1" by (rule links_growable[OF l1 r1 gr])
        have live1: "faces m1 start_face \<noteq> None" using live links_dom[OF l1] by simp
        have "card {h. unused m1 h} \<le> card {h. unused m h}"
          by (rule card_mono[OF unused_finite[OF fin]]) (use mono in auto)
        with bound have b2: "card {h. unused m1 h} \<le> fuel" by simp
        from "2.IH"(4)[OF ek p pr Some g' False n yes rec refl gr1 live1 ks' b2]
        obtain cnt' m' where
          rest: "regionGrowing_loop fuel gfn start_face normal angle rg ks (cnt + 1 + r) m1
                   = Some (cnt', m')" and l2: "links m1 m'"
          by blast
        from ek p pr Some g' False n yes rec rest links_trans[OF l1 l2]
        show ?thesis by simp
      qed
    qed
  qed
next
  case (3 gfn start_face normal angle rg m)
  then show ?case by simp
next
  case (4 fuel gfn start_face normal angle rg m)
  note gr = "4.prems"(1) and live = "4.prems"(2) and bound = "4.prems"(3)
  from gr have reg: "regions m rg \<noteq> None" and fin: "finite (dom (faces m))"
    by (simp_all add: growable_def)
  from mark_defined[OF live reg] obtain m1 m2 where
    m1: "upd_face start_face (\<lambda>r. r\<lparr>m_used := True\<rparr>) m = Some m1" and
    m2: "region_addFace rg start_face m1 = Some m2"
    by blast
  note ma = mark_add[OF m1 m2]
  have l: "links m m2" by (rule mark_links[OF m1 m2])
  from ma have r2: "regions m2 rg \<noteq> None" by simp
  have gr2: "growable gfn rg m2" by (rule links_growable[OF l r2 gr])
  have live2: "faces m2 start_face \<noteq> None" using live links_dom[OF l] by simp
  have "{h. unused m2 h} \<subseteq> {h. unused m h \<and> h \<noteq> start_face}" using ma by auto
  moreover have "finite {h. unused m h \<and> h \<noteq> start_face}"
    by (rule finite_subset[OF _ unused_finite[OF fin]]) auto
  ultimately have "card {h. unused m2 h} \<le> card {h. unused m h \<and> h \<noteq> start_face}"
    by (rule card_mono[rotated])
  with bound have b2: "card {h. unused m2 h} \<le> fuel" by simp
  from "4.IH"[OF m1 m2 gr2 live2 _ b2] obtain cnt' m' where
    "regionGrowing_loop fuel gfn start_face normal angle rg [0, 1, 2] 0 m2 = Some (cnt', m')"
    "links m2 m'"
    by auto
  with m1 m2 links_trans[OF l] show ?case by simp
qed

text \<open>C7, as the code has it. On a mesh where the region and everything a visit
  dereferences are present, \<open>regionGrowing\<close> returns as soon as the fuel exceeds the number
  of faces other than the seed that are not marked used: the recursion is that deep at
  most. The run that returns \<open>cnt\<close> has appended the seed and then \<open>cnt\<close> further faces to
  the face list of the region; no face occurs twice among them; every one of the further
  faces was not marked used before the run and passed the test
  \<open>fabs(normal of the face * reference normal) > angle\<close>, the absolute value of the dot
  product.\<close>

theorem regionGrowing_admits_by_absolute_dot:
  assumes "growable gfn rg m" and "faces m f \<noteq> None"
      and "card {g. unused m g \<and> g \<noteq> f} < fuel"
  shows "\<exists>cnt m' added. regionGrowing fuel gfn f normal angle rg m = Some (cnt, m') \<and>
           region_faces m' rg = region_faces m rg @ f # added \<and>
           cnt = length added \<and> distinct (f # added) \<and>
           (\<forall>g \<in> set added. unused m g \<and> admitted gfn normal angle g)"
proof -
  from grow_total_fun[OF assms] obtain cnt m' where
    run: "regionGrowing fuel gfn f normal angle rg m = Some (cnt, m')" by blast
  from grow_fun[OF run] run show ?thesis by blast
qed

text \<open>The theorem on the pillow, grown from face 0 with the normal of face 0 as the
  reference and the threshold 1/2: one face besides the seed is not marked, and the fuel 2
  is enough.\<close>

lemma pillow_faces: "faces (empty_region pillow) g \<noteq> None \<Longrightarrow> g = 0 \<or> g = 1"
  by (simp add: empty_region_def pillow_def mesh_eval split: if_splits)

theorem regionGrowing_admits_by_absolute_dot_witness:
  "growable (stored_normal pillow) 0 (empty_region pillow) \<and>
   faces (empty_region pillow) 0 \<noteq> None \<and>
   card {g. unused (empty_region pillow) g \<and> g \<noteq> 0} < 2 \<and>
   (\<exists>cnt m' added.
     regionGrowing 2 (stored_normal pillow) 0 (0, 0, 1) (1 / 2) 0 (empty_region pillow)
       = Some (cnt, m') \<and>
     region_faces m' 0 = region_faces (empty_region pillow) 0 @ 0 # added \<and>
     cnt = length added \<and> distinct (0 # added))"
proof -
  have r: "regions (empty_region pillow) 0 \<noteq> None" by code_simp
  have "dom (faces (empty_region pillow)) \<subseteq> {0, 1}"
    using pillow_faces by (auto simp: dom_def)
  then have fin: "finite (dom (faces (empty_region pillow)))"
    by (rule finite_subset) simp
  have rdy: "face_ready (stored_normal pillow) (empty_region pillow) 0"
     "face_ready (stored_normal pillow) (empty_region pillow) 1" by code_simp+
  have g: "growable (stored_normal pillow) 0 (empty_region pillow)"
    unfolding growable_def
  proof (intro conjI allI impI)
    fix f assume "faces (empty_region pillow) f \<noteq> None"
    from pillow_faces[OF this] rdy
    show "face_ready (stored_normal pillow) (empty_region pillow) f" by auto
  qed (rule r, rule fin)
  have l: "faces (empty_region pillow) 0 \<noteq> None" by code_simp
  have "{g. unused (empty_region pillow) g \<and> g \<noteq> 0} \<subseteq> {1}"
    using pillow_faces by (auto simp: unused_def split: option.splits)
  then have "card {g. unused (empty_region pillow) g \<and> g \<noteq> 0} \<le> card {1::nat}"
    by (intro card_mono) simp_all
  then have c: "card {g. unused (empty_region pillow) g \<and> g \<noteq> 0} < 2" by simp
  from regionGrowing_admits_by_absolute_dot[OF g l c, of "(0, 0, 1)" "1 / 2"] g l c show ?thesis by blast
qed

text \<open>C7, as the claim states it: a neighbour is admitted only if the cosine of its normal
  with the reference normal exceeds the threshold. On the pillow the normal of face 0 is
  \<open>(0, 0, 1)\<close> and that of face 1 is \<open>(0, 0, -1)\<close>, both of length 1. With the
  reference \<open>(0, 0, 1)\<close> and the threshold 1/2, face 1 has the cosine \<open>-1\<close> and is
  admitted: the run returns 1 and the region holds the faces 0 and 1.\<close>

theorem regionGrowing_admits_opposite_normal:
  "map_option (\<lambda>(cnt, m'). (cnt, region_faces m' 0))
     (regionGrowing 3 (stored_normal pillow) 0 (0, 0, 1) (1 / 2) 0 (empty_region pillow))
     = Some (1, [0, 1]) \<and>
   stored_normal pillow 0 = Some (0, 0, 1) \<and>
   stored_normal pillow 1 = Some (0, 0, - 1) \<and>
   \<not> dot (0, 0, - 1) (0, 0, 1) > 1 / 2"
  by code_simp


subsection \<open>The builder\<close>





subsection \<open>The retriangulation phase of fillHoles\<close>

lemma hole_edge_okD:
  assumes "hole_edge_ok m x"
  obtains r p pr g gr rg where "edges m x = Some r" "e_start r \<noteq> e_end r"
    "e_pair r = Some p" "edges m p = Some pr" "e_start pr = e_end r" "e_end pr = e_start r"
    "e_face pr = Some g" "faces m g = Some gr" "m_region gr = Some rg" "regions m rg \<noteq> None"
  using assms by (auto simp: hole_edge_ok_def split: option.splits)

lemma cycle_cond_defined:
  assumes "list_all (hole_edge_ok m) hole" "hole \<noteq> []" "i < length hole" "j < length hole"
  shows "\<exists>c. cycle_cond m hole i j = Some c"
proof -
  have "\<forall>x \<in> set hole. edges m x \<noteq> None"
    using assms(1) by (auto simp: list_all_iff elim: hole_edge_okD)
  moreover have "last hole \<in> set hole" "hole ! i \<in> set hole" "hole ! j \<in> set hole"
    using assms by simp_all
  ultimately obtain rb ri rj where "edges m (last hole) = Some rb"
     "edges m (hole ! i) = Some ri" "edges m (hole ! j) = Some rj"
    by (metis option.exhaust)
  then show ?thesis
    using assms(3,4) by (auto simp: cycle_cond_def nth_opt_def endOf_def startOf_def)
qed

lemma first_cycle_defined:
  assumes "list_all (hole_edge_ok m) hole" "hole \<noteq> []"
      and "\<forall>(i, j) \<in> set ps. i < length hole \<and> j < length hole"
  shows "\<exists>r. first_cycle m hole ps = Some r"
  using assms(3)
proof (induction ps)
  case Nil
  then show ?case by simp
next
  case (Cons ij ps)
  obtain i j where ij: "ij = (i, j)" by (cases ij)
  with Cons.prems have "i < length hole" "j < length hole" by auto
  from cycle_cond_defined[OF assms(1,2) this] obtain c where "cycle_cond m hole i j = Some c" ..
  with Cons ij show ?case by (cases c) auto
qed

lemma first_cycle_found:
  "first_cycle m hole ps = Some (Some (i, j)) \<Longrightarrow>
     (i, j) \<in> set ps \<and> cycle_cond m hole i j = Some True"
proof (induction ps)
  case Nil
  then show ?case by simp
next
  case (Cons ij ps)
  obtain i' j' where ij: "ij = (i', j')" by (cases ij)
  with Cons show ?case
    by (auto simp: bind_eq_Some_conv split: if_splits)
qed

lemma make_face_effect:
  assumes ok: "hole_ok m hole" and ne: "hole \<noteq> []"
      and i: "i < length hole" and j: "j < length hole"
      and cyc: "cycle_cond m hole i j = Some True"
  shows "\<exists>hole' m'. make_face i j hole m = Some (hole', m') \<and> hole_ok m' hole' \<and>
           set hole' \<subseteq> set hole \<and> last hole \<notin> set hole' \<and> hole ! i \<notin> set hole' \<and>
           hole ! j \<notin> set hole' \<and>
           (\<forall>k. k \<noteq> last hole \<and> k \<noteq> hole ! i \<and> k \<noteq> hole ! j \<longrightarrow> edges m' k = edges m k) \<and>
           (\<forall>g. g \<noteq> f_fresh m \<longrightarrow> faces m' g = faces m g) \<and>
           f_fresh m' = Suc (f_fresh m) \<and> cycle_at m' (f_fresh m)"
proof -
  define bk where "bk = last hole"
  define hi where "hi = hole ! i"
  define hj where "hj = hole ! j"
  define f where "f = f_fresh m"
  have mem: "bk \<in> set hole" "hi \<in> set hole" "hj \<in> set hole"
    using ne i j by (simp_all add: bk_def hi_def hj_def)
  have all: "\<And>x. x \<in> set hole \<Longrightarrow> hole_edge_ok m x"
    using ok by (simp add: hole_ok_def list_all_iff)
  have dist: "distinct hole" using ok by (simp add: hole_ok_def)
  have fresh: "\<And>k. faces m (f + k) = None" using ok by (simp add: hole_ok_def f_def)
  from fresh[of 0] have fresh0: "faces m f = None" by simp
  from all[OF mem(1)] obtain rb pb prb gb grb rgb where
    rb: "edges m bk = Some rb" "e_start rb \<noteq> e_end rb"
    "e_pair rb = Some pb" "edges m pb = Some prb" "e_start prb = e_end rb" "e_end prb = e_start rb"
    "e_face prb = Some gb" "faces m gb = Some grb" "m_region grb = Some rgb" "regions m rgb \<noteq> None"
    by (rule hole_edge_okD)
  from all[OF mem(2)] obtain ri where ri: "edges m hi = Some ri" "e_start ri \<noteq> e_end ri"
    by (rule hole_edge_okD)
  from all[OF mem(3)] obtain rj where rj: "edges m hj = Some rj" "e_start rj \<noteq> e_end rj"
    by (rule hole_edge_okD)
  from cyc rb ri rj i j have chain:
    "e_end rb = e_start ri" "e_end ri = e_start rj" "e_end rj = e_start rb"
    by (auto simp: cycle_cond_def nth_opt_def endOf_def startOf_def bk_def hi_def hj_def
        split: if_splits)
  have ne3: "bk \<noteq> hi" "hi \<noteq> hj" "hj \<noteq> bk"
    using rb ri rj chain by auto
  have pbne: "pb \<noteq> bk" "pb \<noteq> hi" "pb \<noteq> hj"
    using rb ri rj chain by auto
  have gbne: "gb \<noteq> f" using rb(8) fresh0 by auto
  obtain rgr where rgr: "regions m rgb = Some rgr" using rb(10) by auto
  define E where "E = (edges m)(bk \<mapsto> rb\<lparr>e_next := Some hi, e_face := Some f\<rparr>,
       hi \<mapsto> ri\<lparr>e_next := Some hj, e_face := Some f\<rparr>,
       hj \<mapsto> rj\<lparr>e_next := Some bk, e_face := Some f\<rparr>)"
  define F where "F = (faces m)(f \<mapsto> \<lparr>m_edge = Some bk, m_used = False,
       m_region = Some rgb, f_normal = (0, 0, 0)\<rparr>)"
  define m' where "m' = m\<lparr>edges := E, faces := F,
       regions := (regions m)(rgb \<mapsto> rgr\<lparr>r_faces := r_faces rgr @ [f]\<rparr>),
       m_faces := m_faces m @ [f], f_fresh := Suc f\<rparr>"
  define hole' where "hole' = remove1 hj (remove1 hi (remove1 bk hole))"
  have run: "make_face i j hole m = Some (hole', m')"
    using rb ri rj ne3 pbne gbne rgr mem i j fresh0
    unfolding make_face_def claim_edge_def new_face_def Let_def
    by (simp add: upd_face_def upd_edge_def nth_opt_def face_edge_def nextOf_def pairOf_def
          faceOf_def erase_first_def region_addFace_def
          bk_def[symmetric] hi_def[symmetric] hj_def[symmetric] f_def[symmetric]
          m'_def E_def F_def hole'_def fun_upd_twist)
  have "hole_ok m' hole'"
    unfolding hole_ok_def
  proof (intro conjI allI)
    show "distinct hole'" using dist by (simp add: hole'_def)
    show "faces m' (f_fresh m' + k) = None" for k
      using fresh[of "Suc k"] by (simp add: m'_def F_def)
    show "list_all (hole_edge_ok m') hole'"
      unfolding list_all_iff
    proof
      fix x assume "x \<in> set hole'"
      then have x: "x \<in> set hole" "x \<noteq> bk" "x \<noteq> hi" "x \<noteq> hj"
        using dist by (auto simp: hole'_def)
      from all[OF x(1)] obtain r p pr g gr rg where
        h: "edges m x = Some r" "e_start r \<noteq> e_end r"
        "e_pair r = Some p" "edges m p = Some pr" "e_start pr = e_end r" "e_end pr = e_start r"
        "e_face pr = Some g" "faces m g = Some gr" "m_region gr = Some rg" "regions m rg \<noteq> None"
        by (rule hole_edge_okD)
      have gne: "g \<noteq> f" using h(8) fresh0 by auto
      show "hole_edge_ok m' x"
        using x h gne rb ri rj
        by (auto simp: hole_edge_ok_def m'_def E_def F_def)
    qed
  qed
  moreover have "set hole' \<subseteq> set hole \<and> bk \<notin> set hole' \<and> hi \<notin> set hole' \<and> hj \<notin> set hole'"
    using dist by (auto simp: hole'_def)
  moreover have "\<forall>k. k \<noteq> bk \<and> k \<noteq> hi \<and> k \<noteq> hj \<longrightarrow> edges m' k = edges m k"
    by (simp add: m'_def E_def)
  moreover have "\<forall>g. g \<noteq> f \<longrightarrow> faces m' g = faces m g" "f_fresh m' = Suc f"
    by (simp_all add: m'_def F_def)
  moreover have "cycle_at m' f"
    using ne3 by (simp add: cycle_at_def nextOf_def faceOf_def m'_def E_def F_def)
  ultimately show ?thesis
    using run unfolding bk_def hi_def hj_def f_def by blast
qed

lemma make_face_ok:
  assumes "hole_ok m hole" and "hole \<noteq> []"
      and "i < length hole" and "j < length hole"
      and "cycle_cond m hole i j = Some True"
  shows "\<exists>hole' m'. make_face i j hole m = Some (hole', m') \<and> hole_ok m' hole'"
  using make_face_effect[OF assms] by blast

lemma hole_ok_butlast: "hole_ok m hole \<Longrightarrow> hole_ok m (butlast hole)"
  by (auto simp: hole_ok_def list_all_iff distinct_butlast dest: in_set_butlastD)

lemma fill_pass_ok:
  assumes ok: "hole_ok m hole" and ne: "hole \<noteq> []"
  shows "\<exists>hole' m1. fill_pass hole m = Some (hole', m1) \<and> hole_ok m1 hole' \<and>
           (length hole' + 3 = length hole \<or> hole' = butlast hole \<and> m1 = m)"
proof -
  let ?ps = "List.product [0..<length hole] [0..<length hole]"
  have all: "list_all (hole_edge_ok m) hole" using ok by (simp add: hole_ok_def)
  have "\<forall>(i, j) \<in> set ?ps. i < length hole \<and> j < length hole" by auto
  from first_cycle_defined[OF all ne this] obtain found where
    found: "first_cycle m hole ?ps = Some found" ..
  show ?thesis
  proof (cases found)
    case None
    with found have "fill_pass hole m = Some (butlast hole, m)"
      by (simp add: fill_pass_def)
    with hole_ok_butlast[OF ok] show ?thesis by simp
  next
    case (Some ij)
    obtain i j where ij: "ij = (i, j)" by (cases ij)
    from first_cycle_found[of m hole ?ps i j] found Some ij
    have inb: "i < length hole" "j < length hole" and cyc: "cycle_cond m hole i j = Some True"
      by auto
    from make_face_ok[OF ok ne inb cyc] obtain hole' m1 where
      mk: "make_face i j hole m = Some (hole', m1)" and ok': "hole_ok m1 hole'"
      by blast
    from found Some ij mk have "fill_pass hole m = Some (hole', m1)"
      by (simp add: fill_pass_def)
    with ok' make_face_length[OF mk] show ?thesis by simp
  qed
qed

lemma retriangulate_defined:
  "hole_ok m hole \<Longrightarrow> \<exists>m'. retriangulate hole m = Some m'"
proof (induction hole m rule: retriangulate.induct)
  case (1 hole m)
  show ?case
  proof (cases "hole = []")
    case True
    then show ?thesis by simp
  next
    case False
    from fill_pass_ok[OF "1.prems" False] obtain hole' m1 where
      p: "fill_pass hole m = Some (hole', m1)" and ok': "hole_ok m1 hole'"
      by blast
    from "1.IH"[OF False p refl ok'] p False show ?thesis by simp
  qed
qed

text \<open>C6. On a hole contour that holds no half-edge twice and whose half-edges are no loops
  and have a pair that carries a face of a region that is present, the loop of the
  retriangulation phase returns: every pass is defined, it either makes a face and takes
  three edges from the list or drops the last edge and leaves the mesh as it is, and the
  loop goes on with the shorter list.\<close>

theorem retriangulate_terminates:
  assumes "hole_ok m hole"
  shows "(\<exists>m'. retriangulate hole m = Some m') \<and>
         (hole = [] \<or>
          (\<exists>hole' m1. fill_pass hole m = Some (hole', m1) \<and> hole_ok m1 hole' \<and>
             retriangulate hole m = retriangulate hole' m1 \<and>
             (length hole' + 3 = length hole \<or> hole' = butlast hole \<and> m1 = m)))"
proof (cases "hole = []")
  case True
  then show ?thesis by simp
next
  case False
  from fill_pass_ok[OF assms False] obtain hole' m1 where
    p: "fill_pass hole m = Some (hole', m1)" "hole_ok m1 hole'"
       "length hole' + 3 = length hole \<or> hole' = butlast hole \<and> m1 = m"
    by blast
  from p(1) False have "retriangulate hole m = retriangulate hole' m1" by simp
  with retriangulate_defined[OF assms] p False show ?thesis by blast
qed

text \<open>The theorem at the hole around one triangle: the three outer half-edges are closed
  with one new face.\<close>

theorem retriangulate_terminates_witness:
  "hole_ok tri_region [1, 3, 5] \<and>
   (\<exists>m'. retriangulate [1, 3, 5] tri_region = Some m') \<and>
   map_option m_faces (retriangulate [1, 3, 5] tri_region) = Some [0, 1]"
proof -
  have ok: "hole_ok tri_region [1, 3, 5]"
    unfolding hole_ok_def
  proof (intro conjI allI)
    show "distinct [1, 3, 5::nat]" by simp
    show "list_all (hole_edge_ok tri_region) [1, 3, 5]" by code_simp
    show "faces tri_region (f_fresh tri_region + k) = None" for k
      by (simp add: tri_region_def empty_region_def region_addFace_def mesh_eval)
  qed
  have fs: "map_option m_faces (retriangulate [1, 3, 5] tri_region) = Some [0, 1]"
    by code_simp
  from retriangulate_terminates[OF ok] ok fs show ?thesis by blast
qed

text \<open>C6, as the claim states it, for every traced contour. The three outer half-edges of
  one triangle that is in no region are a contour without a face; the first pass finds the
  3-cycle at the indices 0 and 1, links the three half-edges to a new face and then reads
  \<open>(*f)[0]->pair->face->m_region\<close>, a null pointer, to call \<open>addFace\<close> on it: the pass and
  with it the loop do not return.\<close>

theorem retriangulate_without_region_undefined:
  "first_cycle one_triangle [1, 5, 3] (List.product [0..<3] [0..<3]) = Some (Some (0, 1)) \<and>
   (pairOf one_triangle 3 \<bind> faceOf one_triangle) = Some 0 \<and>
   map_option m_region (faces one_triangle 0) = Some None \<and>
   list_all (\<lambda>x. faceOf one_triangle x = None) [1, 5, 3] \<and>
   make_face 0 1 [1, 5, 3] one_triangle = None \<and>
   retriangulate [1, 5, 3] one_triangle = None"
  by code_simp


subsection \<open>Flipping an interior edge twice\<close>

lemma flip_quad:
  assumes q: "quad m e p A B C D n1 nn1 n2 nn2 f1 f2"
  shows "\<exists>m1. flipEdge e m = Some m1 \<and>
      quad m1 (e_fresh m) (Suc (e_fresh m)) C D B A nn2 n1 nn1 n2 f2 f1 \<and>
      e_fresh m1 = e_fresh m + 2 \<and> m_faces m1 = m_faces m \<and> m_vertices m1 = m_vertices m \<and>
      (\<forall>v. pos m1 v = pos m v) \<and>
      faceOf m1 e = None \<and> edges m1 e = None \<and> edges m1 p = None \<and>
      cycle_at m1 f1 \<and> cycle_at m1 f2 \<and>
      (\<forall>k. k \<noteq> e \<and> k \<noteq> p \<and> k \<noteq> n1 \<and> k \<noteq> nn1 \<and> k \<noteq> n2 \<and> k \<noteq> nn2 \<and>
           k \<noteq> e_fresh m \<and> k \<noteq> Suc (e_fresh m) \<longrightarrow> edges m1 k = edges m k) \<and>
      (\<forall>g. g \<noteq> f1 \<and> g \<noteq> f2 \<longrightarrow> faces m1 g = faces m g) \<and>
      f_fresh m1 = f_fresh m \<and>
      outs m1 A = remove1 e (outs m A) \<and> inns m1 A = remove1 p (inns m A) \<and>
      outs m1 B = remove1 p (outs m B) \<and> inns m1 B = remove1 e (inns m B) \<and>
      outs m1 C = outs m C @ [e_fresh m] \<and> inns m1 C = inns m C @ [Suc (e_fresh m)] \<and>
      outs m1 D = outs m D @ [Suc (e_fresh m)] \<and> inns m1 D = inns m D @ [e_fresh m] \<and>
      (\<forall>v. v \<noteq> A \<and> v \<noteq> B \<and> v \<noteq> C \<and> v \<noteq> D \<longrightarrow> vertices m1 v = vertices m v) \<and>
      pairOf m1 n1 = pairOf m n1 \<and> pairOf m1 nn1 = pairOf m nn1 \<and>
      pairOf m1 n2 = pairOf m n2 \<and> pairOf m1 nn2 = pairOf m nn2"
proof -
  define x where "x = e_fresh m"
  from q have d: "e \<noteq> p" "e \<noteq> n1" "e \<noteq> nn1" "e \<noteq> n2" "e \<noteq> nn2" "p \<noteq> n1" "p \<noteq> nn1"
     "p \<noteq> n2" "p \<noteq> nn2" "n1 \<noteq> nn1" "n1 \<noteq> n2" "n1 \<noteq> nn2" "nn1 \<noteq> n2" "nn1 \<noteq> nn2" "n2 \<noteq> nn2"
    and dv: "A \<noteq> B" "A \<noteq> C" "A \<noteq> D" "B \<noteq> C" "B \<noteq> D" "C \<noteq> D" and df: "f1 \<noteq> f2"
    by (auto simp: quad_def)
  from q obtain re rn1 rnn1 rp rn2 rnn2 where
    re: "edges m e = Some re" "e_start re = A" "e_end re = B" "e_face re = Some f1" "e_next re = Some n1" "e_pair re = Some p" and
    rn1: "edges m n1 = Some rn1" "e_start rn1 = B" "e_end rn1 = C" "e_face rn1 = Some f1" "e_next rn1 = Some nn1" and
    rnn1: "edges m nn1 = Some rnn1" "e_start rnn1 = C" "e_end rnn1 = A" "e_face rnn1 = Some f1" "e_next rnn1 = Some e" and
    rp: "edges m p = Some rp" "e_start rp = B" "e_end rp = A" "e_face rp = Some f2" "e_next rp = Some n2" "e_pair rp = Some e" and
    rn2: "edges m n2 = Some rn2" "e_start rn2 = A" "e_end rn2 = D" "e_face rn2 = Some f2" "e_next rn2 = Some nn2" and
    rnn2: "edges m nn2 = Some rnn2" "e_start rnn2 = D" "e_end rnn2 = B" "e_face rnn2 = Some f2" "e_next rnn2 = Some p"
    by (auto simp: quad_def face_edge_at_def pairOf_def bind_eq_Some_conv split: option.splits)
  from q obtain va vb vc vd fr1 fr2 where
    va: "vertices m A = Some va" "e \<in> set (out va)" "p \<in> set (inn va)" and
    vb: "vertices m B = Some vb" "p \<in> set (out vb)" "e \<in> set (inn vb)" and
    vc: "vertices m C = Some vc" and vd: "vertices m D = Some vd" and
    fr: "faces m f1 = Some fr1" "faces m f2 = Some fr2"
    by (auto simp: quad_def linked_def split: option.splits)
  from q have fresh: "\<And>k. edges m (x + k) = None" by (simp add: quad_def x_def)
  from fresh[of 0] fresh[of 1] have fx: "edges m x = None" "edges m (Suc x) = None" by simp_all
  have dx: "x \<noteq> e" "x \<noteq> p" "x \<noteq> n1" "x \<noteq> nn1" "x \<noteq> n2" "x \<noteq> nn2"
     "Suc x \<noteq> e" "Suc x \<noteq> p" "Suc x \<noteq> n1" "Suc x \<noteq> nn1" "Suc x \<noteq> n2" "Suc x \<noteq> nn2"
    using fx re rn1 rnn1 rp rn2 rnn2 by auto
  note facts = re rn1 rnn1 rp rn2 rnn2 va vb vc vd fr d dv df dx d[symmetric] dv[symmetric] df[symmetric] dx[symmetric]
  have run: "\<exists>m1. flipEdge e m = Some m1 \<and>
      edges m1 x = Some \<lparr>e_start = C, e_end = D, e_pair = Some (Suc x), e_face = Some f2,
                          e_next = Some nn2, e_used = False\<rparr> \<and>
      edges m1 (Suc x) = Some \<lparr>e_start = D, e_end = C, e_pair = Some x, e_face = Some f1,
                          e_next = Some nn1, e_used = False\<rparr> \<and>
      edges m1 n1 = Some (rn1\<lparr>e_next := Some x, e_face := Some f2\<rparr>) \<and>
      edges m1 nn1 = Some (rnn1\<lparr>e_next := Some n2, e_face := Some f1\<rparr>) \<and>
      edges m1 n2 = Some (rn2\<lparr>e_next := Some (Suc x), e_face := Some f1\<rparr>) \<and>
      edges m1 nn2 = Some (rnn2\<lparr>e_next := Some n1, e_face := Some f2\<rparr>) \<and>
      edges m1 e = None \<and> edges m1 p = None \<and>
      (\<forall>k. k \<noteq> e \<and> k \<noteq> p \<and> k \<noteq> n1 \<and> k \<noteq> nn1 \<and> k \<noteq> n2 \<and> k \<noteq> nn2 \<and> k \<noteq> x \<and> k \<noteq> Suc x
           \<longrightarrow> edges m1 k = edges m k) \<and>
      vertices m1 A = Some (va\<lparr>out := remove1 e (out va), inn := remove1 p (inn va)\<rparr>) \<and>
      vertices m1 B = Some (vb\<lparr>inn := remove1 e (inn vb), out := remove1 p (out vb)\<rparr>) \<and>
      vertices m1 C = Some (vc\<lparr>out := out vc @ [x], inn := inn vc @ [Suc x]\<rparr>) \<and>
      vertices m1 D = Some (vd\<lparr>inn := inn vd @ [x], out := out vd @ [Suc x]\<rparr>) \<and>
      (\<forall>v. v \<noteq> A \<and> v \<noteq> B \<and> v \<noteq> C \<and> v \<noteq> D \<longrightarrow> vertices m1 v = vertices m v) \<and>
      map_option m_edge (faces m1 f1) = Some (Some (Suc x)) \<and>
      map_option m_edge (faces m1 f2) = Some (Some x) \<and>
      e_fresh m1 = x + 2 \<and> m_faces m1 = m_faces m \<and> m_vertices m1 = m_vertices m \<and>
      (\<forall>g. g \<noteq> f1 \<and> g \<noteq> f2 \<longrightarrow> faces m1 g = faces m g) \<and> f_fresh m1 = f_fresh m"
    using facts
    unfolding flipEdge_def deleteEdge_def unlink_edge_def calc_normal_def Let_def new_edge_def
    by (simp add: pairOf_def nextOf_def endOf_def startOf_def faceOf_def upd_edge_def
         upd_vertex_def upd_face_def face_vertex_def face_edge_def erase_first_def free_edge_def
         x_def[symmetric])
  then obtain m1 where m1: "flipEdge e m = Some m1"
     and ex: "edges m1 x = Some \<lparr>e_start = C, e_end = D, e_pair = Some (Suc x), e_face = Some f2,
                          e_next = Some nn2, e_used = False\<rparr>"
     and ey: "edges m1 (Suc x) = Some \<lparr>e_start = D, e_end = C, e_pair = Some x, e_face = Some f1,
                          e_next = Some nn1, e_used = False\<rparr>"
     and en1: "edges m1 n1 = Some (rn1\<lparr>e_next := Some x, e_face := Some f2\<rparr>)"
     and enn1: "edges m1 nn1 = Some (rnn1\<lparr>e_next := Some n2, e_face := Some f1\<rparr>)"
     and en2: "edges m1 n2 = Some (rn2\<lparr>e_next := Some (Suc x), e_face := Some f1\<rparr>)"
     and enn2: "edges m1 nn2 = Some (rnn2\<lparr>e_next := Some n1, e_face := Some f2\<rparr>)"
     and gone: "edges m1 e = None" "edges m1 p = None"
     and eframe: "\<And>k. k \<noteq> e \<and> k \<noteq> p \<and> k \<noteq> n1 \<and> k \<noteq> nn1 \<and> k \<noteq> n2 \<and> k \<noteq> nn2 \<and> k \<noteq> x \<and> k \<noteq> Suc x
           \<Longrightarrow> edges m1 k = edges m k"
     and v1: "vertices m1 A = Some (va\<lparr>out := remove1 e (out va), inn := remove1 p (inn va)\<rparr>)"
      "vertices m1 B = Some (vb\<lparr>inn := remove1 e (inn vb), out := remove1 p (out vb)\<rparr>)"
      "vertices m1 C = Some (vc\<lparr>out := out vc @ [x], inn := inn vc @ [Suc x]\<rparr>)"
      "vertices m1 D = Some (vd\<lparr>inn := inn vd @ [x], out := out vd @ [Suc x]\<rparr>)"
     and vframe: "\<And>v. v \<noteq> A \<and> v \<noteq> B \<and> v \<noteq> C \<and> v \<noteq> D \<Longrightarrow> vertices m1 v = vertices m v"
     and f1e: "map_option m_edge (faces m1 f1) = Some (Some (Suc x))"
     and f2e: "map_option m_edge (faces m1 f2) = Some (Some x)"
     and rest: "e_fresh m1 = x + 2" "m_faces m1 = m_faces m" "m_vertices m1 = m_vertices m"
     and fframe: "\<forall>g. g \<noteq> f1 \<and> g \<noteq> f2 \<longrightarrow> faces m1 g = faces m g" "f_fresh m1 = f_fresh m"
    by blast
  have fresh1: "edges m1 (e_fresh m1 + k) = None" for k
  proof -
    have "edges m (x + (2 + k)) = None" by (rule fresh)
    moreover have "x + 2 + k \<noteq> e \<and> x + 2 + k \<noteq> p \<and> x + 2 + k \<noteq> n1 \<and> x + 2 + k \<noteq> nn1 \<and>
       x + 2 + k \<noteq> n2 \<and> x + 2 + k \<noteq> nn2 \<and> x + 2 + k \<noteq> x \<and> x + 2 + k \<noteq> Suc x"
      using fresh[of "2 + k"] re rn1 rnn1 rp rn2 rnn2 by (auto simp: add.assoc)
    ultimately show ?thesis using eframe[of "x + 2 + k"] rest(1) by (simp add: add.assoc)
  qed
  have q1: "quad m1 x (Suc x) C D B A nn2 n1 nn1 n2 f2 f1"
    unfolding quad_def face_edge_at_def linked_def pairOf_def
    using ex ey en1 enn1 en2 enn2 v1 f1e f2e fresh1 facts
    by (auto)
  have pos1: "pos m1 v = pos m v" for v
    using v1 vframe[of v] va vb vc vd by (cases "v = A \<or> v = B \<or> v = C \<or> v = D") (auto simp: pos_def)
  have cyc: "cycle_at m1 f1" "cycle_at m1 f2"
    using ex ey en1 enn1 en2 enn2 f1e f2e facts
    by (auto simp: cycle_at_def nextOf_def faceOf_def split: option.splits)
  have lists: "outs m1 A = remove1 e (outs m A)" "inns m1 A = remove1 p (inns m A)"
      "outs m1 B = remove1 p (outs m B)" "inns m1 B = remove1 e (inns m B)"
      "outs m1 C = outs m C @ [x]" "inns m1 C = inns m C @ [Suc x]"
      "outs m1 D = outs m D @ [Suc x]" "inns m1 D = inns m D @ [x]"
    using v1 va vb vc vd by (simp_all add: outs_def inns_def)
  have prs: "pairOf m1 n1 = pairOf m n1" "pairOf m1 nn1 = pairOf m nn1"
      "pairOf m1 n2 = pairOf m n2" "pairOf m1 nn2 = pairOf m nn2"
    using en1 enn1 en2 enn2 rn1 rnn1 rn2 rnn2 by (simp_all add: pairOf_def)
  show ?thesis
    unfolding x_def[symmetric]
  proof (intro exI[of _ m1] conjI)
  qed (use m1 q1 rest pos1 gone cyc fframe eframe lists prs vframe in
        \<open>simp_all add: faceOf_def\<close>)
qed


lemma quad_sym:
  "quad m e p A B C D n1 nn1 n2 nn2 f1 f2 \<Longrightarrow> quad m p e B A D C n2 nn2 n1 nn1 f2 f1"
  unfolding quad_def by auto

text \<open>C8. In a quad around the edge \<open>e\<close>, \<open>flipEdge(e)\<close> and then \<open>flipEdge\<close> of the edge
  that the first flip created both succeed. Afterwards the quad has its four corners and
  its four boundary edges as before, with their pairs, the diagonal runs between \<open>A\<close> and
  \<open>B\<close> again, on two new half-edges, the triangle \<open>A B C\<close> lies on one side and \<open>B A D\<close>
  on the other, with the handles of the two faces exchanged, both face cycles are closed,
  and the face list, the vertex list and all positions are as before. The old diagonal and
  the diagonal between \<open>C\<close> and \<open>D\<close> of the first flip are freed and erased from the lists
  of the corners: the lists of \<open>A\<close> and \<open>B\<close> hold the new diagonal in place of the old one,
  those of \<open>C\<close> and \<open>D\<close> lose what the first flip appended, and nothing else in the stores
  of half-edges and vertices differs.\<close>

theorem flip_twice_restores_quad:
  assumes "quad m e p A B C D n1 nn1 n2 nn2 f1 f2"
  shows "\<exists>m1 m2. flipEdge e m = Some m1 \<and> flipEdge (e_fresh m) m1 = Some m2 \<and>
           quad m2 (e_fresh m + 3) (e_fresh m + 2) A B C D n1 nn1 n2 nn2 f2 f1 \<and>
           cycle_at m2 f1 \<and> cycle_at m2 f2 \<and>
           m_faces m2 = m_faces m \<and> m_vertices m2 = m_vertices m \<and>
           (\<forall>v. pos m2 v = pos m v) \<and>
           edges m2 e = None \<and> edges m2 p = None \<and>
           edges m2 (e_fresh m) = None \<and> edges m2 (Suc (e_fresh m)) = None \<and>
           e_fresh m2 = e_fresh m + 4 \<and>
           (\<forall>k. k \<noteq> e \<and> k \<noteq> p \<and> k \<noteq> n1 \<and> k \<noteq> nn1 \<and> k \<noteq> n2 \<and> k \<noteq> nn2 \<and>
                k \<noteq> e_fresh m \<and> k \<noteq> e_fresh m + 1 \<and> k \<noteq> e_fresh m + 2 \<and> k \<noteq> e_fresh m + 3
                \<longrightarrow> edges m2 k = edges m k) \<and>
           pairOf m2 n1 = pairOf m n1 \<and> pairOf m2 nn1 = pairOf m nn1 \<and>
           pairOf m2 n2 = pairOf m n2 \<and> pairOf m2 nn2 = pairOf m nn2 \<and>
           outs m2 A = remove1 e (outs m A) @ [e_fresh m + 3] \<and>
           inns m2 A = remove1 p (inns m A) @ [e_fresh m + 2] \<and>
           outs m2 B = remove1 p (outs m B) @ [e_fresh m + 2] \<and>
           inns m2 B = remove1 e (inns m B) @ [e_fresh m + 3] \<and>
           outs m2 C = remove1 (e_fresh m) (outs m C @ [e_fresh m]) \<and>
           inns m2 C = remove1 (Suc (e_fresh m)) (inns m C @ [Suc (e_fresh m)]) \<and>
           outs m2 D = remove1 (Suc (e_fresh m)) (outs m D @ [Suc (e_fresh m)]) \<and>
           inns m2 D = remove1 (e_fresh m) (inns m D @ [e_fresh m]) \<and>
           (\<forall>v. v \<noteq> A \<and> v \<noteq> B \<and> v \<noteq> C \<and> v \<noteq> D \<longrightarrow> vertices m2 v = vertices m v)"
proof -
  define x where "x = e_fresh m"
  from flip_quad[OF assms] obtain m1 where
    m1: "flipEdge e m = Some m1"
    and q1: "quad m1 x (Suc x) C D B A nn2 n1 nn1 n2 f2 f1"
    and r1: "e_fresh m1 = x + 2" "m_faces m1 = m_faces m" "m_vertices m1 = m_vertices m"
      "\<forall>v. pos m1 v = pos m v"
    and g1: "edges m1 e = None" "edges m1 p = None"
    and ef1: "\<forall>k. k \<noteq> e \<and> k \<noteq> p \<and> k \<noteq> n1 \<and> k \<noteq> nn1 \<and> k \<noteq> n2 \<and> k \<noteq> nn2 \<and>
           k \<noteq> x \<and> k \<noteq> Suc x \<longrightarrow> edges m1 k = edges m k"
    and l1: "outs m1 A = remove1 e (outs m A)" "inns m1 A = remove1 p (inns m A)"
      "outs m1 B = remove1 p (outs m B)" "inns m1 B = remove1 e (inns m B)"
      "outs m1 C = outs m C @ [x]" "inns m1 C = inns m C @ [Suc x]"
      "outs m1 D = outs m D @ [Suc x]" "inns m1 D = inns m D @ [x]"
    and vf1: "\<forall>v. v \<noteq> A \<and> v \<noteq> B \<and> v \<noteq> C \<and> v \<noteq> D \<longrightarrow> vertices m1 v = vertices m v"
    and p1: "pairOf m1 n1 = pairOf m n1" "pairOf m1 nn1 = pairOf m nn1"
      "pairOf m1 n2 = pairOf m n2" "pairOf m1 nn2 = pairOf m nn2"
    unfolding x_def by blast
  from flip_quad[OF q1] obtain m2 where
    m2: "flipEdge x m1 = Some m2"
    and q2: "quad m2 (e_fresh m1) (Suc (e_fresh m1)) B A D C n2 nn2 n1 nn1 f1 f2"
    and r2: "e_fresh m2 = e_fresh m1 + 2" "m_faces m2 = m_faces m1"
      "m_vertices m2 = m_vertices m1"
      "\<forall>v. pos m2 v = pos m1 v" "cycle_at m2 f2" "cycle_at m2 f1"
    and g2: "edges m2 x = None" "edges m2 (Suc x) = None"
    and ef2: "\<forall>k. k \<noteq> x \<and> k \<noteq> Suc x \<and> k \<noteq> nn2 \<and> k \<noteq> n1 \<and> k \<noteq> nn1 \<and> k \<noteq> n2 \<and>
           k \<noteq> e_fresh m1 \<and> k \<noteq> Suc (e_fresh m1) \<longrightarrow> edges m2 k = edges m1 k"
    and l2: "outs m2 C = remove1 x (outs m1 C)" "inns m2 C = remove1 (Suc x) (inns m1 C)"
      "outs m2 D = remove1 (Suc x) (outs m1 D)" "inns m2 D = remove1 x (inns m1 D)"
      "outs m2 B = outs m1 B @ [e_fresh m1]" "inns m2 B = inns m1 B @ [Suc (e_fresh m1)]"
      "outs m2 A = outs m1 A @ [Suc (e_fresh m1)]" "inns m2 A = inns m1 A @ [e_fresh m1]"
    and vf2: "\<forall>v. v \<noteq> C \<and> v \<noteq> D \<and> v \<noteq> B \<and> v \<noteq> A \<longrightarrow> vertices m2 v = vertices m1 v"
    and p2: "pairOf m2 nn2 = pairOf m1 nn2" "pairOf m2 n1 = pairOf m1 n1"
      "pairOf m2 nn1 = pairOf m1 nn1" "pairOf m2 n2 = pairOf m1 n2"
    by blast
  from assms have fresh: "\<And>k. edges m (x + k) = None" and d: "e \<noteq> p"
    and live: "edges m e \<noteq> None" "edges m p \<noteq> None" "edges m n1 \<noteq> None"
       "edges m nn1 \<noteq> None" "edges m n2 \<noteq> None" "edges m nn2 \<noteq> None"
    by (auto simp: quad_def x_def face_edge_at_def split: option.splits)
  have far: "k \<noteq> x + j" if "edges m k \<noteq> None" for k j
    using fresh[of j] that by auto
  have qq: "quad m2 (x + 3) (x + 2) A B C D n1 nn1 n2 nn2 f2 f1"
    using quad_sym[OF q2] r1(1) by (simp add: numeral_3_eq_3)
  have ge: "edges m2 e = None" "edges m2 p = None"
  proof -
    have "e \<noteq> x \<and> e \<noteq> Suc x \<and> e \<noteq> nn2 \<and> e \<noteq> n1 \<and> e \<noteq> nn1 \<and> e \<noteq> n2 \<and>
           e \<noteq> e_fresh m1 \<and> e \<noteq> Suc (e_fresh m1)"
      using assms far[OF live(1), of 0] far[OF live(1), of 1] far[OF live(1), of 2]
        far[OF live(1), of 3] r1(1)
      by (auto simp: quad_def)
    with ef2 g1 show "edges m2 e = None" by simp
    have "p \<noteq> x \<and> p \<noteq> Suc x \<and> p \<noteq> nn2 \<and> p \<noteq> n1 \<and> p \<noteq> nn1 \<and> p \<noteq> n2 \<and>
           p \<noteq> e_fresh m1 \<and> p \<noteq> Suc (e_fresh m1)"
      using assms far[OF live(2), of 0] far[OF live(2), of 1] far[OF live(2), of 2]
        far[OF live(2), of 3] r1(1)
      by (auto simp: quad_def)
    with ef2 g1 show "edges m2 p = None" by simp
  qed
  have fr: "edges m2 k = edges m k"
    if "k \<noteq> e \<and> k \<noteq> p \<and> k \<noteq> n1 \<and> k \<noteq> nn1 \<and> k \<noteq> n2 \<and> k \<noteq> nn2 \<and>
                k \<noteq> x \<and> k \<noteq> x + 1 \<and> k \<noteq> x + 2 \<and> k \<noteq> x + 3" for k
    using that ef1 ef2 r1(1) by (simp add: numeral_3_eq_3)
  have vf: "\<forall>v. v \<noteq> A \<and> v \<noteq> B \<and> v \<noteq> C \<and> v \<noteq> D \<longrightarrow> vertices m2 v = vertices m v"
    using vf1 vf2 by simp
  show ?thesis
    unfolding x_def[symmetric]
  proof (rule exI[of _ m1], rule exI[of _ m2], intro conjI)
  qed (use m1 m2 qq r1 r2 g2 ge fr vf l1 l2 p1 p2 in \<open>simp_all add: numeral_3_eq_3\<close>)
qed

text \<open>The theorem at the diagonal of the unit square.\<close>

theorem flip_twice_restores_quad_witness:
  "quad unit_square 4 5 2 0 1 3 0 2 6 8 0 1 \<and>
   (\<exists>m1 m2. flipEdge 4 unit_square = Some m1 \<and> flipEdge 10 m1 = Some m2 \<and>
      quad m2 13 12 2 0 1 3 0 2 6 8 1 0 \<and>
      edges m2 4 = None \<and> edges m2 5 = None \<and> edges m2 10 = None \<and> edges m2 11 = None \<and>
      outs m2 2 = remove1 4 (outs unit_square 2) @ [13] \<and>
      outs m2 1 = outs unit_square 1 \<and> inns m2 3 = inns unit_square 3)"
proof -
  have q: "quad unit_square 4 5 2 0 1 3 0 2 6 8 0 1"
    unfolding quad_def
  proof (intro conjI allI)
    show "edges unit_square (e_fresh unit_square + k) = None" for k
      by (simp add: unit_square_def mesh_eval)
  qed (code_simp)+
  have fr: "e_fresh unit_square = 10" by code_simp
  have l: "remove1 10 (outs unit_square 1 @ [10]) = outs unit_square 1"
     "remove1 10 (inns unit_square 3 @ [10]) = inns unit_square 3" by code_simp+
  from flip_twice_restores_quad[OF q] q fr l show ?thesis by auto
qed


subsection \<open>The pairing invariant\<close>





























subsection \<open>Two triangles over a shared edge\<close>




























subsection \<open>The face cycle invariant\<close>





























subsection \<open>Collapsing an edge\<close>

lemma unlink_edge_eq:
  assumes "edges m x = Some r" "vertices m (e_start r) = Some sv" "x \<in> set (out sv)"
      "vertices m (e_end r) = Some tv" "x \<in> set (inn tv)"
  shows "unlink_edge x m = Some (m\<lparr>vertices := strike x (e_start r) (e_end r) (vertices m)\<rparr>)"
proof -
  define V where "V = (if e_start r = e_end r
      then (vertices m)(e_end r \<mapsto> sv\<lparr>out := remove1 x (out sv), inn := remove1 x (inn sv)\<rparr>)
      else (vertices m)(e_start r \<mapsto> sv\<lparr>out := remove1 x (out sv)\<rparr>,
                        e_end r \<mapsto> tv\<lparr>inn := remove1 x (inn tv)\<rparr>))"
  have "unlink_edge x m = Some (m\<lparr>vertices := V\<rparr>)"
    using assms
    by (auto simp: unlink_edge_def startOf_def endOf_def erase_first_def upd_vertex_def V_def)
  moreover have "V = strike x (e_start r) (e_end r) (vertices m)"
    using assms by (auto simp: V_def strike_def fun_eq_iff option.map_ident)
  ultimately show ?thesis by simp
qed

lemma lists_ok_strike:
  assumes ok: "lists_ok m" and x: "edges m x = Some r"
      and e: "edges m' = (edges m)(x := None)"
      and v: "vertices m' = strike x (e_start r) (e_end r) (vertices m)"
  shows "lists_ok m'"
  unfolding lists_ok_def
proof (intro conjI allI impI)
  fix k r' assume k: "edges m' k = Some r'"
  with e have kx: "k \<noteq> x" and kr: "edges m k = Some r'" by (auto split: if_splits)
  from ok kr obtain sv tv where
    "vertices m (e_start r') = Some sv" "k \<in> set (out sv)"
    "vertices m (e_end r') = Some tv" "k \<in> set (inn tv)"
    unfolding lists_ok_def by blast
  with kx show "\<exists>sv tv. vertices m' (e_start r') = Some sv \<and> k \<in> set (out sv) \<and>
                 vertices m' (e_end r') = Some tv \<and> k \<in> set (inn tv)"
    by (simp add: v strike_def)
next
  fix w vr assume w: "vertices m' w = Some vr"
  then obtain vr0 where w0: "vertices m w = Some vr0"
    and vr: "vr = vr0\<lparr>out := (if w = e_start r then remove1 x (out vr0) else out vr0),
       inn := (if w = e_end r then remove1 x (inn vr0) else inn vr0)\<rparr>"
    by (auto simp: v strike_def)
  from ok w0 have d: "distinct (out vr0)" "distinct (inn vr0)"
    and so: "\<And>k. k \<in> set (out vr0) \<Longrightarrow> \<exists>r. edges m k = Some r \<and> e_start r = w"
    and si: "\<And>k. k \<in> set (inn vr0) \<Longrightarrow> \<exists>r. edges m k = Some r \<and> e_end r = w"
    unfolding lists_ok_def by blast+
  show "distinct (out vr)" using d vr by simp
  show "distinct (inn vr)" using d vr by simp
  show "\<forall>k \<in> set (out vr). \<exists>r. edges m' k = Some r \<and> e_start r = w"
  proof
    fix k assume "k \<in> set (out vr)"
    moreover have "x \<in> set (out vr0) \<Longrightarrow> w = e_start r" using so[of x] x by auto
    ultimately have "k \<in> set (out vr0)" "k \<noteq> x"
      using vr d by (auto split: if_splits)
    with so[of k] show "\<exists>r. edges m' k = Some r \<and> e_start r = w" by (simp add: e)
  qed
  show "\<forall>k \<in> set (inn vr). \<exists>r. edges m' k = Some r \<and> e_end r = w"
  proof
    fix k assume "k \<in> set (inn vr)"
    moreover have "x \<in> set (inn vr0) \<Longrightarrow> w = e_end r" using si[of x] x by auto
    ultimately have "k \<in> set (inn vr0)" "k \<noteq> x"
      using vr d by (auto split: if_splits)
    with si[of k] show "\<exists>r. edges m' k = Some r \<and> e_end r = w" by (simp add: e)
  qed
qed


lemma deleteEdge_False_step:
  assumes ok: "lists_ok m" and x: "edges m x = Some r"
  shows "\<exists>m'. deleteEdge x False m = Some m' \<and> edges m' = (edges m)(x := None) \<and> lists_ok m' \<and>
     faces m' = faces m \<and> m_faces m' = m_faces m \<and> m_vertices m' = m_vertices m \<and>
     (\<forall>v. vertices m' v = None \<longleftrightarrow> vertices m v = None)"
proof -
  from ok x obtain sv tv where
    r: "vertices m (e_start r) = Some sv" "x \<in> set (out sv)"
       "vertices m (e_end r) = Some tv" "x \<in> set (inn tv)"
    unfolding lists_ok_def by blast
  define m' where "m' = m\<lparr>vertices := strike x (e_start r) (e_end r) (vertices m),
      edges := (edges m)(x := None)\<rparr>"
  have "deleteEdge x False m = Some m'"
    by (simp add: deleteEdge_def unlink_edge_eq[OF x r] free_edge_def x m'_def)
  moreover have "lists_ok m'"
    by (rule lists_ok_strike[OF ok x]) (simp_all add: m'_def)
  moreover have "\<forall>v. vertices m' v = None \<longleftrightarrow> vertices m v = None"
    by (simp add: m'_def strike_def)
  ultimately show ?thesis by (simp add: m'_def)
qed

lemma deleteEdge_True_step:
  assumes ok: "lists_ok m" and x: "edges m x = Some r" "e_pair r = Some p" and px: "p \<noteq> x"
      and p: "edges m p = Some pr"
  shows "\<exists>m'. deleteEdge x True m = Some m' \<and> edges m' = (edges m)(p := None, x := None) \<and>
     lists_ok m' \<and>
     faces m' = faces m \<and> m_faces m' = m_faces m \<and> m_vertices m' = m_vertices m \<and>
     (\<forall>v. vertices m' v = None \<longleftrightarrow> vertices m v = None)"
proof -
  from ok x(1) obtain sv tv where
    r: "vertices m (e_start r) = Some sv" "x \<in> set (out sv)"
       "vertices m (e_end r) = Some tv" "x \<in> set (inn tv)"
    unfolding lists_ok_def by blast
  from ok p obtain sv' tv' where
    r': "vertices m (e_start pr) = Some sv'" "p \<in> set (out sv')"
       "vertices m (e_end pr) = Some tv'" "p \<in> set (inn tv')"
    unfolding lists_ok_def by blast
  define m1 where "m1 = m\<lparr>vertices := strike x (e_start r) (e_end r) (vertices m)\<rparr>"
  define m2 where "m2 = m1\<lparr>vertices := strike p (e_start pr) (e_end pr) (vertices m1)\<rparr>"
  define mi where "mi = m1\<lparr>edges := (edges m)(x := None)\<rparr>"
  define m' where "m' = m2\<lparr>edges := (edges m)(p := None, x := None)\<rparr>"
  have u1: "unlink_edge x m = Some m1"
    by (simp add: unlink_edge_eq[OF x(1) r] m1_def)
  have e1: "edges m1 = edges m" by (simp add: m1_def)
  from r' px obtain sv2 tv2 where
    r2: "vertices m1 (e_start pr) = Some sv2" "p \<in> set (out sv2)"
       "vertices m1 (e_end pr) = Some tv2" "p \<in> set (inn tv2)"
    by (simp add: m1_def strike_def)
  have p1: "edges m1 p = Some pr" using p e1 by simp
  have u2: "unlink_edge p m1 = Some m2"
    by (simp add: unlink_edge_eq[OF p1 r2] m2_def)
  have e2: "edges m2 = edges m" by (simp add: m2_def e1)
  have run: "deleteEdge x True m = Some m'"
    using x p px
    by (simp add: deleteEdge_def u1 u2 pairOf_def e1 e2 free_edge_def m'_def)
  have oki: "lists_ok mi"
    by (rule lists_ok_strike[OF ok x(1)]) (simp_all add: mi_def m1_def)
  have "lists_ok m'"
  proof (rule lists_ok_strike[OF oki])
    show "edges mi p = Some pr" using p px by (simp add: mi_def)
    show "edges m' = (edges mi)(p := None)" using px by (auto simp: m'_def mi_def fun_eq_iff)
    show "vertices m' = strike p (e_start pr) (e_end pr) (vertices mi)"
      by (simp add: m'_def m2_def mi_def)
  qed
  moreover have "\<forall>v. vertices m' v = None \<longleftrightarrow> vertices m v = None"
    by (simp add: m'_def m2_def m1_def strike_def)
  ultimately show ?thesis using run by (simp add: m'_def m2_def m1_def)
qed

lemma lists_ok_cong:
  assumes ok: "lists_ok m"
      and A: "\<And>k r'. edges m' k = Some r' \<Longrightarrow>
               \<exists>r0. edges m k = Some r0 \<and> e_start r0 = e_start r' \<and> e_end r0 = e_end r'"
      and B: "\<And>k r0. edges m k = Some r0 \<Longrightarrow>
               \<exists>r'. edges m' k = Some r' \<and> e_start r' = e_start r0 \<and> e_end r' = e_end r0"
      and V: "\<And>v. map_option (\<lambda>r. (out r, inn r)) (vertices m' v) =
                    map_option (\<lambda>r. (out r, inn r)) (vertices m v)"
  shows "lists_ok m'"
  unfolding lists_ok_def
proof (intro conjI allI impI)
  fix k r' assume "edges m' k = Some r'"
  from A[OF this] obtain r0 where r0: "edges m k = Some r0" "e_start r0 = e_start r'"
     "e_end r0 = e_end r'" by blast
  from ok r0(1) obtain sv tv where
    "vertices m (e_start r0) = Some sv" "k \<in> set (out sv)"
    "vertices m (e_end r0) = Some tv" "k \<in> set (inn tv)"
    unfolding lists_ok_def by blast
  with V[of "e_start r0"] V[of "e_end r0"] r0
  show "\<exists>sv tv. vertices m' (e_start r') = Some sv \<and> k \<in> set (out sv) \<and>
                 vertices m' (e_end r') = Some tv \<and> k \<in> set (inn tv)"
    by (auto simp: map_option_case split: option.splits)
next
  fix w vr assume w: "vertices m' w = Some vr"
  with V[of w] obtain vr0 where w0: "vertices m w = Some vr0" "out vr0 = out vr" "inn vr0 = inn vr"
    by (auto simp: map_option_case split: option.splits)
  from ok w0(1) have d: "distinct (out vr0)" "distinct (inn vr0)"
    and so: "\<And>k. k \<in> set (out vr0) \<Longrightarrow> \<exists>r. edges m k = Some r \<and> e_start r = w"
    and si: "\<And>k. k \<in> set (inn vr0) \<Longrightarrow> \<exists>r. edges m k = Some r \<and> e_end r = w"
    unfolding lists_ok_def by blast+
  show "distinct (out vr)" "distinct (inn vr)" using d w0 by simp_all
  show "\<forall>k \<in> set (out vr). \<exists>r. edges m' k = Some r \<and> e_start r = w"
  proof
    fix k assume "k \<in> set (out vr)"
    with so[of k] w0 obtain r where "edges m k = Some r" "e_start r = w" by auto
    with B[OF this(1)] show "\<exists>r. edges m' k = Some r \<and> e_start r = w" by auto
  qed
  show "\<forall>k \<in> set (inn vr). \<exists>r. edges m' k = Some r \<and> e_end r = w"
  proof
    fix k assume "k \<in> set (inn vr)"
    with si[of k] w0 obtain r where "edges m k = Some r" "e_end r = w" by auto
    with B[OF this(1)] show "\<exists>r. edges m' k = Some r \<and> e_end r = w" by auto
  qed
qed

lemma lists_ok_pair:
  assumes ok: "lists_ok m" and x: "edges m x = Some r"
  shows "lists_ok (m\<lparr>edges := (edges m)(x \<mapsto> r\<lparr>e_pair := q\<rparr>)\<rparr>)"
  by (rule lists_ok_cong[OF ok]) (use x in \<open>auto split: if_splits\<close>)

lemma collapse_block_run:
  assumes ok: "lists_ok m"
      and base: "\<And>s. edges s e0 = edges m e0 \<Longrightarrow> base s = Some x"
      and x: "edges m x = Some xr" "e_next xr = Some n"
      and n: "edges m n = Some nr" "e_next nr = Some nn" "e_pair nr = Some np"
      and nn: "edges m nn = Some nnr" "e_pair nnr = Some nnp"
      and np: "edges m np = Some npr"
      and nnp: "edges m nnp = Some nnpr"
      and d: "distinct [n, nn, np, nnp]" "e0 \<notin> {n, nn, np, nnp}" "x \<notin> {n, nn, np, nnp}"
  shows "\<exists>m'. collapse_block base m = Some m' \<and>
      edges m' = (edges m)(nnp \<mapsto> nnpr\<lparr>e_pair := Some np\<rparr>,
                           np \<mapsto> npr\<lparr>e_pair := Some nnp\<rparr>, nn := None, n := None) \<and>
      lists_ok m' \<and> faces m' = faces m \<and> m_faces m' = m_faces m \<and>
      m_vertices m' = m_vertices m \<and> (\<forall>v. vertices m' v = None \<longleftrightarrow> vertices m v = None)"
proof -
  define m1 where "m1 = m\<lparr>edges := (edges m)(nnp \<mapsto> nnpr\<lparr>e_pair := Some np\<rparr>)\<rparr>"
  define m2 where "m2 = m1\<lparr>edges := (edges m1)(np \<mapsto> npr\<lparr>e_pair := Some nnp\<rparr>)\<rparr>"
  have ok1: "lists_ok m1" unfolding m1_def by (rule lists_ok_pair[OF ok nnp])
  have np1: "edges m1 np = Some npr" using np d by (simp add: m1_def)
  have ok2: "lists_ok m2" unfolding m2_def by (rule lists_ok_pair[OF ok1 np1])
  have e2: "edges m2 = (edges m)(nnp \<mapsto> nnpr\<lparr>e_pair := Some np\<rparr>,
                           np \<mapsto> npr\<lparr>e_pair := Some nnp\<rparr>)"
    by (simp add: m2_def m1_def)
  have nn2: "edges m2 nn = Some nnr" using nn d by (simp add: e2)
  from deleteEdge_False_step[OF ok2 nn2] obtain m3 where
    m3: "deleteEdge nn False m2 = Some m3" "edges m3 = (edges m2)(nn := None)" "lists_ok m3"
      "faces m3 = faces m2" "m_faces m3 = m_faces m2" "m_vertices m3 = m_vertices m2"
      "\<forall>v. vertices m3 v = None \<longleftrightarrow> vertices m2 v = None"
    by blast
  have n3: "edges m3 n = Some nr" using n d by (simp add: m3(2) e2)
  from deleteEdge_False_step[OF m3(3) n3] obtain m4 where
    m4: "deleteEdge n False m3 = Some m4" "edges m4 = (edges m3)(n := None)" "lists_ok m4"
      "faces m4 = faces m3" "m_faces m4 = m_faces m3" "m_vertices m4 = m_vertices m3"
      "\<forall>v. vertices m4 v = None \<longleftrightarrow> vertices m3 v = None"
    by blast
  have b: "base m = Some x" "base m1 = Some x" "base m2 = Some x" "base m3 = Some x"
    using d by (auto intro!: base simp: m1_def e2 m3(2))
  have x1: "edges m1 x = Some xr" "edges m2 x = Some xr" "edges m3 x = Some xr"
    using x d by (simp_all add: m1_def e2 m3(2))
  have n1: "edges m1 n = Some nr" "edges m2 n = Some nr"
    using n d by (simp_all add: m1_def e2)
  have nn1: "edges m1 nn = Some nnr" using nn d by (simp add: m1_def)
  have "collapse_block base m = Some m4"
    unfolding collapse_block_def
    using b x x1 n n1 n3 nn nn1 nn2 nnp np1 m3(1) m4(1)
    by (simp add: nextOf_def pairOf_def upd_edge_def m1_def[symmetric] m2_def[symmetric])
  moreover have "edges m4 = (edges m)(nnp \<mapsto> nnpr\<lparr>e_pair := Some np\<rparr>,
                           np \<mapsto> npr\<lparr>e_pair := Some nnp\<rparr>, nn := None, n := None)"
    by (simp add: m4(2) m3(2) e2)
  moreover have "faces m4 = faces m" "m_faces m4 = m_faces m" "m_vertices m4 = m_vertices m"
     "\<forall>v. vertices m4 v = None \<longleftrightarrow> vertices m v = None"
    using m3 m4 by (simp_all add: m2_def m1_def)
  ultimately show ?thesis using m4(3) by blast
qed


lemma pairing_at_mod:
  "pairing_at m k \<longleftrightarrow> (\<forall>r. edges m k = Some r \<longrightarrow>
     (\<exists>p pr. e_pair r = Some p \<and> edges m p = Some pr \<and> e_pair pr = Some k \<and>
        e_start pr = e_end r \<and> e_end pr = e_start r))"
  by (simp add: pairing_at_def split: option.splits)

lemma pairing_inv_mod: "pairing_inv m \<longleftrightarrow> pairing_mod (\<lambda>v. v) (edges m)"
  unfolding pairing_inv_def pairing_at_mod pairing_mod_def by blast

lemma pm_weaken: "pairing_mod (\<lambda>v. v) E \<Longrightarrow> pairing_mod \<sigma> E"
  unfolding pairing_mod_def by fastforce


lemma pm_block:
  assumes pm: "pairing_mod \<sigma> E"
      and n: "E n = Some nr" "e_pair nr = Some np" and nn: "E nn = Some nnr" "e_pair nnr = Some nnp"
      and np: "E np = Some npr" and nnp: "E nnp = Some nnpr"
      and d: "distinct [n, nn, np, nnp]"
      and s: "\<sigma> (e_start nr) = \<sigma> (e_end nnr)" "e_end nr = e_start nnr"
  shows "pairing_mod \<sigma> (E(nnp \<mapsto> nnpr\<lparr>e_pair := Some np\<rparr>,
            np \<mapsto> npr\<lparr>e_pair := Some nnp\<rparr>, nn := None, n := None))"
    (is "pairing_mod \<sigma> ?E'")
proof -
  from pm n(1) obtain p pr where "e_pair nr = Some p" "E p = Some pr" "e_pair pr = Some n"
     "\<sigma> (e_start pr) = \<sigma> (e_end nr)" "\<sigma> (e_end pr) = \<sigma> (e_start nr)"
    unfolding pairing_mod_def by blast
  with n np have a: "e_pair npr = Some n" "\<sigma> (e_start npr) = \<sigma> (e_end nr)"
     "\<sigma> (e_end npr) = \<sigma> (e_start nr)" by simp_all
  from pm nn(1) obtain p pr where "e_pair nnr = Some p" "E p = Some pr" "e_pair pr = Some nn"
     "\<sigma> (e_start pr) = \<sigma> (e_end nnr)" "\<sigma> (e_end pr) = \<sigma> (e_start nnr)"
    unfolding pairing_mod_def by blast
  with nn nnp have b: "e_pair nnpr = Some nn" "\<sigma> (e_start nnpr) = \<sigma> (e_end nnr)"
     "\<sigma> (e_end nnpr) = \<sigma> (e_start nnr)" by simp_all
  have Enp: "?E' np = Some (npr\<lparr>e_pair := Some nnp\<rparr>)" using d by simp
  have Ennp: "?E' nnp = Some (nnpr\<lparr>e_pair := Some np\<rparr>)" using d by simp
  show ?thesis
    unfolding pairing_mod_def
  proof (intro allI impI)
    fix k r assume k: "?E' k = Some r"
    then have kn: "k \<noteq> n" "k \<noteq> nn" by (auto split: if_splits)
    show "\<exists>p pr. e_pair r = Some p \<and> ?E' p = Some pr \<and> e_pair pr = Some k \<and>
        \<sigma> (e_start pr) = \<sigma> (e_end r) \<and> \<sigma> (e_end pr) = \<sigma> (e_start r)"
    proof (cases "k = nnp \<or> k = np")
      case True
      then show ?thesis
      proof
        assume "k = nnp"
        with k Ennp have "r = nnpr\<lparr>e_pair := Some np\<rparr>" by simp
        with Enp a b s \<open>k = nnp\<close> show ?thesis by simp
      next
        assume "k = np"
        with k Enp have "r = npr\<lparr>e_pair := Some nnp\<rparr>" by simp
        with Ennp a b s \<open>k = np\<close> show ?thesis by simp
      qed
    next
      case False
      with k kn have Ek: "E k = Some r" by (simp split: if_splits)
      with pm obtain p pr where p: "e_pair r = Some p" "E p = Some pr" "e_pair pr = Some k"
        "\<sigma> (e_start pr) = \<sigma> (e_end r)" "\<sigma> (e_end pr) = \<sigma> (e_start r)"
        unfolding pairing_mod_def by blast
      have "p \<noteq> n" using p n False by auto
      moreover have "p \<noteq> nn" using p nn False by auto
      moreover have "p \<noteq> np" using p np a kn by auto
      moreover have "p \<noteq> nnp" using p nnp b kn by auto
      ultimately have "?E' p = Some pr" using p by simp
      with p show ?thesis by blast
    qed
  qed
qed

lemma pm_del_pair:
  assumes pm: "pairing_mod \<sigma> E" and x: "E x = Some r" "e_pair r = Some p"
  shows "pairing_mod \<sigma> (E(p := None, x := None))" (is "pairing_mod \<sigma> ?E'")
proof -
  from pm x obtain pr where pr: "E p = Some pr" "e_pair pr = Some x"
    unfolding pairing_mod_def by fastforce
  show ?thesis
    unfolding pairing_mod_def
  proof (intro allI impI)
    fix k rk assume k: "?E' k = Some rk"
    then have kn: "k \<noteq> x" "k \<noteq> p" and Ek: "E k = Some rk" by (auto split: if_splits)
    with pm obtain q qr where q: "e_pair rk = Some q" "E q = Some qr" "e_pair qr = Some k"
        "\<sigma> (e_start qr) = \<sigma> (e_end rk)" "\<sigma> (e_end qr) = \<sigma> (e_start rk)"
      unfolding pairing_mod_def by blast
    have "q \<noteq> x" using q x kn by auto
    moreover have "q \<noteq> p" using q pr kn by auto
    ultimately have "?E' q = Some qr" using q by simp
    with q show "\<exists>p' pr'. e_pair rk = Some p' \<and> ?E' p' = Some pr' \<and> e_pair pr' = Some k \<and>
        \<sigma> (e_start pr') = \<sigma> (e_end rk) \<and> \<sigma> (e_end pr') = \<sigma> (e_start rk)" by blast
  qed
qed

lemma pm_rehome:
  assumes pm: "pairing_mod \<sigma> E"
  shows "pairing_mod (\<lambda>v. v)
     (\<lambda>k. map_option (\<lambda>r. r\<lparr>e_start := \<sigma> (e_start r), e_end := \<sigma> (e_end r)\<rparr>) (E k))"
  unfolding pairing_mod_def
proof (intro allI impI)
  fix k r
  assume "map_option (\<lambda>r. r\<lparr>e_start := \<sigma> (e_start r), e_end := \<sigma> (e_end r)\<rparr>) (E k) = Some r"
  then obtain r0 where r0: "E k = Some r0"
     "r = r0\<lparr>e_start := \<sigma> (e_start r0), e_end := \<sigma> (e_end r0)\<rparr>" by auto
  with pm obtain p pr where p: "e_pair r0 = Some p" "E p = Some pr" "e_pair pr = Some k"
        "\<sigma> (e_start pr) = \<sigma> (e_end r0)" "\<sigma> (e_end pr) = \<sigma> (e_start r0)"
    unfolding pairing_mod_def by blast
  with r0 show "\<exists>p pr. e_pair r = Some p \<and>
       map_option (\<lambda>r. r\<lparr>e_start := \<sigma> (e_start r), e_end := \<sigma> (e_end r)\<rparr>) (E p) = Some pr \<and>
       e_pair pr = Some k \<and> e_start pr = e_end r \<and> e_end pr = e_start r"
    by simp
qed

lemma keeps_refl: "keeps F E E"
  by (simp add: keeps_def split: option.splits)

lemma keeps_trans:
  assumes "keeps F E E1" "keeps F E1 E2"
  shows "keeps F E E2"
  unfolding keeps_def
proof
  fix k
  from assms(1) have a: "case E k of None \<Rightarrow> E1 k = None
     | Some r \<Rightarrow> (case E1 k of None \<Rightarrow> e_face r \<in> F
        | Some r' \<Rightarrow> e_face r' = e_face r \<and> e_next r' = e_next r)"
    unfolding keeps_def by blast
  from assms(2) have b: "case E1 k of None \<Rightarrow> E2 k = None
     | Some r \<Rightarrow> (case E2 k of None \<Rightarrow> e_face r \<in> F
        | Some r' \<Rightarrow> e_face r' = e_face r \<and> e_next r' = e_next r)"
    unfolding keeps_def by blast
  from a b show "case E k of None \<Rightarrow> E2 k = None
     | Some r \<Rightarrow> (case E2 k of None \<Rightarrow> e_face r \<in> F
        | Some r' \<Rightarrow> e_face r' = e_face r \<and> e_next r' = e_next r)"
    by (auto split: option.splits)
qed

lemma keeps_mono:
  assumes "keeps F E E'" "F \<subseteq> G"
  shows "keeps G E E'"
  unfolding keeps_def
proof
  fix k
  from assms(1) have a: "case E k of None \<Rightarrow> E' k = None
     | Some r \<Rightarrow> (case E' k of None \<Rightarrow> e_face r \<in> F
        | Some r' \<Rightarrow> e_face r' = e_face r \<and> e_next r' = e_next r)"
    unfolding keeps_def by blast
  with assms(2) show "case E k of None \<Rightarrow> E' k = None
     | Some r \<Rightarrow> (case E' k of None \<Rightarrow> e_face r \<in> G
        | Some r' \<Rightarrow> e_face r' = e_face r \<and> e_next r' = e_next r)"
    by (auto split: option.splits)
qed


lemma keeps_block:
  assumes "E n = Some nr" "e_face nr \<in> F" "E nn = Some nnr" "e_face nnr \<in> F"
      "E np = Some npr" "E nnp = Some nnpr"
  shows "keeps F E (E(nnp \<mapsto> nnpr\<lparr>e_pair := a\<rparr>, np \<mapsto> npr\<lparr>e_pair := b\<rparr>,
            nn := None, n := None))"
  unfolding keeps_def using assms by (auto split: option.splits)

lemma keeps_del:
  assumes "E x = Some r" "e_face r \<in> F" "E p = Some pr" "e_face pr \<in> F"
  shows "keeps F E (E(p := None, x := None))"
  unfolding keeps_def using assms by (auto split: option.splits)

lemma keeps_rehome:
  "keeps F E (\<lambda>k. map_option (\<lambda>r. r\<lparr>e_start := f r, e_end := g r\<rparr>) (E k))"
  unfolding keeps_def by (auto split: option.splits)

lemma cycle_keeps:
  assumes c: "cycle_inv m" and k: "keeps F (edges m) (edges m')"
      and f: "\<And>g. faces m' g = (if Some g \<in> F then None else faces m g)"
  shows "cycle_inv m'"
  unfolding cycle_inv_def
proof
  fix g
  show "cycle_at m' g"
  proof (cases "faces m' g")
    case None
    then show ?thesis by (simp add: cycle_at_def)
  next
    case (Some fr)
    with f[of g] have gF: "Some g \<notin> F" and fm: "faces m g = Some fr"
      by (auto split: if_splits)
    from c have "cycle_at m g" by (simp add: cycle_inv_def)
    with fm obtain e0 e1 e2 r0 r1 r2 where
      cy: "m_edge fr = Some e0" "edges m e0 = Some r0" "e_next r0 = Some e1" "e_face r0 = Some g"
         "edges m e1 = Some r1" "e_next r1 = Some e2" "e_face r1 = Some g"
         "edges m e2 = Some r2" "e_next r2 = Some e0" "e_face r2 = Some g"
      by (auto simp: cycle_at_def nextOf_def faceOf_def bind_eq_Some_conv split: option.splits)
    have keep: "\<exists>r'. edges m' x = Some r' \<and> e_face r' = Some g \<and> e_next r' = e_next r"
      if "edges m x = Some r" "e_face r = Some g" for x r
    proof -
      from k have "case edges m x of None \<Rightarrow> edges m' x = None
        | Some r \<Rightarrow> (case edges m' x of None \<Rightarrow> e_face r \<in> F
           | Some r' \<Rightarrow> e_face r' = e_face r \<and> e_next r' = e_next r)"
        unfolding keeps_def by blast
      with that gF show ?thesis by (auto split: option.splits)
    qed
    from keep[OF cy(2) cy(4)] keep[OF cy(5) cy(7)] keep[OF cy(8) cy(10)] cy Some
    show ?thesis
      by (auto simp: cycle_at_def nextOf_def faceOf_def)
  qed
qed

lemma upd_edge_same:
  assumes "edges m k = Some r" "g r = r"
  shows "upd_edge k g m = Some m"
  using assms by (simp add: upd_edge_def fun_upd_idem)

lemma collapse_block_closed:
  assumes ok: "lists_ok m"
      and base: "\<And>s. edges s e0 = edges m e0 \<Longrightarrow> base s = Some x"
      and x: "edges m x = Some xr" "e_next xr = Some n"
      and n: "edges m n = Some nr" "e_next nr = Some nn" "e_pair nr = Some nn"
      and nn: "edges m nn = Some nnr" "e_pair nnr = Some n"
      and d: "n \<noteq> nn" "e0 \<notin> {n, nn}" "x \<notin> {n, nn}"
  shows "\<exists>m'. collapse_block base m = Some m' \<and>
      edges m' = (edges m)(nn := None, n := None) \<and>
      lists_ok m' \<and> faces m' = faces m \<and> m_faces m' = m_faces m \<and>
      m_vertices m' = m_vertices m \<and> (\<forall>v. vertices m' v = None \<longleftrightarrow> vertices m v = None)"
proof -
  have u1: "upd_edge n (\<lambda>r. r\<lparr>e_pair := e_pair nr\<rparr>) m = Some m"
    by (rule upd_edge_same[OF n(1)]) simp
  have u2: "upd_edge nn (\<lambda>r. r\<lparr>e_pair := e_pair nnr\<rparr>) m = Some m"
    by (rule upd_edge_same[OF nn(1)]) simp
  from deleteEdge_False_step[OF ok nn(1)] obtain m3 where
    m3: "deleteEdge nn False m = Some m3" "edges m3 = (edges m)(nn := None)" "lists_ok m3"
      "faces m3 = faces m" "m_faces m3 = m_faces m" "m_vertices m3 = m_vertices m"
      "\<forall>v. vertices m3 v = None \<longleftrightarrow> vertices m v = None"
    by blast
  have n3: "edges m3 n = Some nr" using n d by (simp add: m3(2))
  from deleteEdge_False_step[OF m3(3) n3] obtain m4 where
    m4: "deleteEdge n False m3 = Some m4" "edges m4 = (edges m3)(n := None)" "lists_ok m4"
      "faces m4 = faces m3" "m_faces m4 = m_faces m3" "m_vertices m4 = m_vertices m3"
      "\<forall>v. vertices m4 v = None \<longleftrightarrow> vertices m3 v = None"
    by blast
  have b: "base m = Some x" "base m3 = Some x"
    using d by (auto intro!: base simp: m3(2))
  have x3: "edges m3 x = Some xr" using x d by (simp add: m3(2))
  have "collapse_block base m = Some m4"
    unfolding collapse_block_def
    using b x x3 n n3 nn m3(1) m4(1) u1 u2
    by (simp add: nextOf_def pairOf_def)
  moreover have "edges m4 = (edges m)(nn := None, n := None)"
    by (simp add: m4(2) m3(2))
  moreover have "faces m4 = faces m" "m_faces m4 = m_faces m" "m_vertices m4 = m_vertices m"
     "\<forall>v. vertices m4 v = None \<longleftrightarrow> vertices m v = None"
    using m3 m4 by simp_all
  ultimately show ?thesis using m4(3) by blast
qed

lemma merged_apex: "c \<noteq> p1 \<Longrightarrow> c \<noteq> p2 \<Longrightarrow> merged p1 p2 v = c \<longleftrightarrow> v = c"
  by (auto simp: merged_def)


lemma side_okD:
  assumes "side_ok E x" "E x = Some xr" "e_face xr = Some f"
  shows "\<exists>n nr nn nnr. e_next xr = Some n \<and> E n = Some nr \<and> e_next nr = Some nn \<and>
       E nn = Some nnr \<and> e_face nr = Some f \<and> e_face nnr = Some f \<and>
       e_start nr = e_end xr \<and> e_start nnr = e_end nr \<and> e_end nnr = e_start xr \<and>
       e_end nr \<noteq> e_start xr \<and> e_end nr \<noteq> e_end xr"
  using assms by (auto simp: side_ok_def split: option.splits)

lemma side_step:
  assumes ok: "lists_ok m" and pm: "pairing_mod (merged p1 p2) (edges m)"
      and side: "side_ok (edges m) x"
      and x: "edges m x = Some xr"
             "e_start xr = p1 \<and> e_end xr = p2 \<or> e_start xr = p2 \<and> e_end xr = p1"
      and base: "\<And>s. edges s e0 = edges m e0 \<Longrightarrow> base s = Some x"
      and e0: "edges m e0 = Some r0" "merged p1 p2 (e_start r0) = merged p1 p2 (e_end r0)"
  shows "\<exists>m'. (if e_face xr \<noteq> None then collapse_block base m else Some m) = Some m' \<and>
      lists_ok m' \<and> pairing_mod (merged p1 p2) (edges m') \<and>
      keeps {e_face xr} (edges m) (edges m') \<and>
      (\<forall>k r. edges m k = Some r \<longrightarrow> merged p1 p2 (e_start r) = merged p1 p2 (e_end r) \<longrightarrow>
           edges m' k = Some r) \<and>
      (\<forall>k r. edges m k = Some r \<longrightarrow> e_face r \<noteq> e_face xr \<longrightarrow>
           (\<exists>q. edges m' k = Some (r\<lparr>e_pair := q\<rparr>))) \<and>
      faces m' = faces m \<and> m_faces m' = m_faces m \<and> m_vertices m' = m_vertices m \<and>
      (\<forall>v. vertices m' v = None \<longleftrightarrow> vertices m v = None)"
proof (cases "e_face xr")
  case None
  have "\<exists>q. edges m k = Some (r\<lparr>e_pair := q\<rparr>)" if "edges m k = Some r" for k r
    using that by (intro exI[of _ "e_pair r"]) simp
  with None ok pm show ?thesis by (simp add: keeps_refl)
next
  case (Some f)
  define \<sigma> where "\<sigma> = merged p1 p2"
  note pm' = pm[folded \<sigma>_def]
  from side_okD[OF side x(1) Some] obtain n nr nn nnr where
    t: "e_next xr = Some n" "edges m n = Some nr" "e_next nr = Some nn" "edges m nn = Some nnr"
       "e_face nr = Some f" "e_face nnr = Some f" "e_start nr = e_end xr"
       "e_start nnr = e_end nr" "e_end nnr = e_start xr"
       "e_end nr \<noteq> e_start xr" "e_end nr \<noteq> e_end xr"
    by blast
  define c where "c = e_end nr"
  have c: "c \<noteq> p1" "c \<noteq> p2" using t(10,11) x(2) by (auto simp: c_def)
  have sc: "\<sigma> v = c \<longleftrightarrow> v = c" for v
    unfolding \<sigma>_def by (rule merged_apex[OF c])
  have sx: "\<sigma> (e_start xr) = p1" "\<sigma> (e_end xr) = p1"
    using x(2) by (auto simp: \<sigma>_def merged_def)
  have sn: "\<sigma> (e_start nr) = p1" "\<sigma> (e_end nr) = c"
    using sx t(7) sc[of c] by (simp_all add: c_def)
  have snn: "\<sigma> (e_start nnr) = c" "\<sigma> (e_end nnr) = p1"
    using sx t(8,9) sc[of c] by (simp_all add: c_def)
  from pm' t(2) obtain np npr where
    np: "e_pair nr = Some np" "edges m np = Some npr" "e_pair npr = Some n"
      "\<sigma> (e_start npr) = \<sigma> (e_end nr)" "\<sigma> (e_end npr) = \<sigma> (e_start nr)"
    unfolding pairing_mod_def by blast
  from pm' t(4) obtain nnp nnpr where
    nnp: "e_pair nnr = Some nnp" "edges m nnp = Some nnpr" "e_pair nnpr = Some nn"
      "\<sigma> (e_start nnpr) = \<sigma> (e_end nnr)" "\<sigma> (e_end nnpr) = \<sigma> (e_start nnr)"
    unfolding pairing_mod_def by blast
  have snp: "\<sigma> (e_start npr) = c" "\<sigma> (e_end npr) = p1" using np sn by simp_all
  have snnp: "\<sigma> (e_start nnpr) = p1" "\<sigma> (e_end nnpr) = c" using nnp snn by simp_all
  have cp: "c \<noteq> p1" by (rule c(1))
  have away: "k \<notin> {n, nn, np, nnp}"
    if "edges m k = Some r" "\<sigma> (e_start r) = \<sigma> (e_end r)" for k r
  proof -
    have "k \<noteq> n" using that t(2) sn cp by auto
    moreover have "k \<noteq> nn" using that t(4) snn cp by auto
    moreover have "k \<noteq> np" using that np(2) snp cp by auto
    moreover have "k \<noteq> nnp" using that nnp(2) snnp cp by auto
    ultimately show ?thesis by simp
  qed
  have d_n_nn: "n \<noteq> nn" using t(2) t(4) sn snn cp by auto
  have d_n_np: "n \<noteq> np" using t(2) np(2) sn snp cp by auto
  have d_nn_nnp: "nn \<noteq> nnp" using t(4) nnp(2) snn snnp cp by auto
  have d_np_nnp: "np \<noteq> nnp" using np(2) nnp(2) snp snnp cp by auto
  have d2: "x \<notin> {n, nn, np, nnp}" using away[OF x(1)] sx by simp
  have d0: "e0 \<notin> {n, nn, np, nnp}" using away[OF e0(1)] e0(2) by (simp add: \<sigma>_def)
  have fx: "e_face xr = Some f" by (rule Some)
  show ?thesis
  proof (cases "nn = np")
    case True
    from True np(2) t(4) have "npr = nnr" by simp
    with np(3) nnp(1) have "nnp = n" by simp
    with True np(1) nnp(1) have cl: "e_pair nr = Some nn" "e_pair nnr = Some n"
      by simp_all
    have "\<exists>m'. collapse_block base m = Some m' \<and>
      edges m' = (edges m)(nn := None, n := None) \<and>
      lists_ok m' \<and> faces m' = faces m \<and> m_faces m' = m_faces m \<and>
      m_vertices m' = m_vertices m \<and> (\<forall>v. vertices m' v = None \<longleftrightarrow> vertices m v = None)"
    proof (rule collapse_block_closed[where ?e0.0 = e0 and base = base and x = x and m = m,
          OF ok _ x(1) t(1) t(2) t(3) cl(1) t(4) cl(2) d_n_nn])
      show "base s = Some x" if "edges s e0 = edges m e0" for s by (rule base[OF that])
      show "e0 \<notin> {n, nn}" using d0 by simp
      show "x \<notin> {n, nn}" using d2 by simp
    qed
    then obtain m' where
      m': "collapse_block base m = Some m'"
        "edges m' = (edges m)(nn := None, n := None)"
        "lists_ok m'" "faces m' = faces m" "m_faces m' = m_faces m"
        "m_vertices m' = m_vertices m" "\<forall>v. vertices m' v = None \<longleftrightarrow> vertices m v = None"
      by blast
    have "pairing_mod \<sigma> (edges m')"
      unfolding m'(2) by (rule pm_del_pair[OF pm' t(2) cl(1)])
    moreover have "keeps {e_face xr} (edges m) (edges m')"
      unfolding m'(2) by (rule keeps_del[OF t(2) _ t(4)]) (simp_all add: t(5) t(6) fx)
    moreover have "edges m' k = Some r"
      if "edges m k = Some r" "\<sigma> (e_start r) = \<sigma> (e_end r)" for k r
    proof -
      from away[OF that] have "k \<notin> {n, nn}" by simp
      with that show ?thesis by (simp add: m'(2))
    qed
    moreover have "\<exists>q. edges m' k = Some (r\<lparr>e_pair := q\<rparr>)"
      if "edges m k = Some r" "e_face r \<noteq> e_face xr" for k r
    proof -
      have "k \<noteq> n" "k \<noteq> nn" using that t(2,4,5,6) fx by auto
      with that(1) have "edges m' k = Some (r\<lparr>e_pair := e_pair r\<rparr>)" by (simp add: m'(2))
      then show ?thesis ..
    qed
    ultimately show ?thesis using m'(1,3,4,5,6,7) fx by (simp add: \<sigma>_def)
  next
    case False
    have "n \<noteq> nnp"
    proof
      assume "n = nnp"
      with nnp(2,3) t(2) np(1) have "np = nn" by simp
      with False show False by simp
    qed
    with d_n_nn d_n_np d_nn_nnp d_np_nnp False have d1: "distinct [n, nn, np, nnp]" by simp
    have "\<exists>m'. collapse_block base m = Some m' \<and>
        edges m' = (edges m)(nnp \<mapsto> nnpr\<lparr>e_pair := Some np\<rparr>,
                             np \<mapsto> npr\<lparr>e_pair := Some nnp\<rparr>, nn := None, n := None) \<and>
        lists_ok m' \<and> faces m' = faces m \<and> m_faces m' = m_faces m \<and>
        m_vertices m' = m_vertices m \<and> (\<forall>v. vertices m' v = None \<longleftrightarrow> vertices m v = None)"
      by (rule collapse_block_run[where ?e0.0 = e0 and base = base and x = x and m = m,
            OF ok _ x(1) t(1) t(2) t(3) np(1) t(4) nnp(1) np(2) nnp(2) d1 d0 d2])
         (erule base)
    then obtain m' where
      m': "collapse_block base m = Some m'"
        "edges m' = (edges m)(nnp \<mapsto> nnpr\<lparr>e_pair := Some np\<rparr>,
                             np \<mapsto> npr\<lparr>e_pair := Some nnp\<rparr>, nn := None, n := None)"
        "lists_ok m'" "faces m' = faces m" "m_faces m' = m_faces m"
        "m_vertices m' = m_vertices m" "\<forall>v. vertices m' v = None \<longleftrightarrow> vertices m v = None"
      by blast
    have "pairing_mod \<sigma> (edges m')"
      unfolding m'(2)
      by (rule pm_block[OF pm' t(2) np(1) t(4) nnp(1) np(2) nnp(2) d1])
         (simp_all add: sn snn t(8))
    moreover have "keeps {e_face xr} (edges m) (edges m')"
      unfolding m'(2)
      by (rule keeps_block[OF t(2) _ t(4) _ np(2) nnp(2)]) (simp_all add: t(5) t(6) fx)
    moreover have "edges m' k = Some r"
      if "edges m k = Some r" "\<sigma> (e_start r) = \<sigma> (e_end r)" for k r
    proof -
      from away[OF that] have "k \<notin> {n, nn, np, nnp}" .
      with that show ?thesis by (simp add: m'(2))
    qed
    moreover have "\<exists>q. edges m' k = Some (r\<lparr>e_pair := q\<rparr>)"
      if "edges m k = Some r" "e_face r \<noteq> e_face xr" for k r
    proof -
      have kn: "k \<noteq> n" "k \<noteq> nn" using that t(2,4,5,6) fx by auto
      show ?thesis
      proof (cases "k = nnp")
        case True
        with that(1) nnp(2) kn d_np_nnp have "edges m' k = Some (r\<lparr>e_pair := Some np\<rparr>)"
          by (simp add: m'(2))
        then show ?thesis ..
      next
        case F1: False
        show ?thesis
        proof (cases "k = np")
          case True
          with that(1) np(2) kn F1 have "edges m' k = Some (r\<lparr>e_pair := Some nnp\<rparr>)"
            by (simp add: m'(2))
          then show ?thesis ..
        next
          case F2: False
          with that(1) kn F1 have "edges m' k = Some (r\<lparr>e_pair := e_pair r\<rparr>)"
            by (simp add: m'(2))
          then show ?thesis ..
        qed
      qed
    qed
    ultimately show ?thesis using m'(1,3,4,5,6,7) fx by (simp add: \<sigma>_def)
  qed
qed

lemma side_ok_kept:
  assumes side: "side_ok E y" and y: "E y = Some yr" "E' y = Some yr"
      and C: "\<And>k r. E k = Some r \<Longrightarrow> e_face r \<noteq> fo \<Longrightarrow> \<exists>q. E' k = Some (r\<lparr>e_pair := q\<rparr>)"
      and df: "e_face yr = None \<or> e_face yr \<noteq> fo"
  shows "side_ok E' y"
proof (cases "e_face yr")
  case None
  with y show ?thesis by (simp add: side_ok_def)
next
  case (Some f)
  from side_okD[OF side y(1) Some] obtain n nr nn nnr where
    t: "e_next yr = Some n" "E n = Some nr" "e_next nr = Some nn" "E nn = Some nnr"
       "e_face nr = Some f" "e_face nnr = Some f" "e_start nr = e_end yr"
       "e_start nnr = e_end nr" "e_end nnr = e_start yr"
       "e_end nr \<noteq> e_start yr" "e_end nr \<noteq> e_end yr"
    by blast
  from df Some have ff: "Some f \<noteq> fo" by auto
  from C[OF t(2)] t(5) ff obtain q1 where q1: "E' n = Some (nr\<lparr>e_pair := q1\<rparr>)" by auto
  from C[OF t(4)] t(6) ff obtain q2 where q2: "E' nn = Some (nnr\<lparr>e_pair := q2\<rparr>)" by auto
  from y Some t q1 q2 show ?thesis by (simp add: side_ok_def)
qed

lemma rehome_out_run:
  assumes "\<forall>x\<in>set xs. edges m x \<noteq> None" "vertices m p1 \<noteq> None"
  shows "\<exists>m'. rehome_out p1 xs m = Some m' \<and>
     edges m' = (\<lambda>k. if k \<in> set xs then map_option (\<lambda>r. r\<lparr>e_start := p1\<rparr>) (edges m k)
                     else edges m k) \<and>
     faces m' = faces m \<and> m_faces m' = m_faces m \<and> m_vertices m' = m_vertices m \<and>
     (\<forall>v. v \<noteq> p1 \<longrightarrow> vertices m' v = vertices m v) \<and>
     vertices m' p1 = map_option (\<lambda>r. r\<lparr>out := out r @ xs\<rparr>) (vertices m p1)"
  using assms
proof (induction xs arbitrary: m)
  case Nil
  then show ?case by (simp add: option.map_ident)
next
  case (Cons x xs)
  from Cons.prems obtain r v1 where r: "edges m x = Some r" and v1: "vertices m p1 = Some v1"
    by auto
  define m2 where "m2 = m\<lparr>edges := (edges m)(x \<mapsto> r\<lparr>e_start := p1\<rparr>),
       vertices := (vertices m)(p1 \<mapsto> v1\<lparr>out := out v1 @ [x]\<rparr>)\<rparr>"
  have step: "rehome_out p1 (x # xs) m = rehome_out p1 xs m2"
    using r v1 by (simp add: upd_edge_def upd_vertex_def m2_def)
  have "\<forall>y\<in>set xs. edges m2 y \<noteq> None" "vertices m2 p1 \<noteq> None"
    using Cons.prems by (auto simp: m2_def)
  from Cons.IH[OF this] obtain m' where
    m': "rehome_out p1 xs m2 = Some m'"
      "edges m' = (\<lambda>k. if k \<in> set xs then map_option (\<lambda>r. r\<lparr>e_start := p1\<rparr>) (edges m2 k)
                     else edges m2 k)"
      "faces m' = faces m2" "m_faces m' = m_faces m2" "m_vertices m' = m_vertices m2"
      "\<forall>v. v \<noteq> p1 \<longrightarrow> vertices m' v = vertices m2 v"
      "vertices m' p1 = map_option (\<lambda>r. r\<lparr>out := out r @ xs\<rparr>) (vertices m2 p1)"
    by blast
  have "edges m' = (\<lambda>k. if k \<in> set (x # xs) then map_option (\<lambda>r. r\<lparr>e_start := p1\<rparr>) (edges m k)
                     else edges m k)"
    using r by (auto simp: m'(2) m2_def fun_eq_iff)
  moreover have "vertices m' p1 = map_option (\<lambda>r. r\<lparr>out := out r @ x # xs\<rparr>) (vertices m p1)"
    using v1 by (simp add: m'(7) m2_def)
  ultimately show ?case using m' step by (simp add: m2_def)
qed

lemma rehome_in_run:
  assumes "\<forall>x\<in>set xs. edges m x \<noteq> None" "vertices m p1 \<noteq> None"
  shows "\<exists>m'. rehome_in p1 xs m = Some m' \<and>
     edges m' = (\<lambda>k. if k \<in> set xs then map_option (\<lambda>r. r\<lparr>e_end := p1\<rparr>) (edges m k)
                     else edges m k) \<and>
     faces m' = faces m \<and> m_faces m' = m_faces m \<and> m_vertices m' = m_vertices m \<and>
     (\<forall>v. v \<noteq> p1 \<longrightarrow> vertices m' v = vertices m v) \<and>
     vertices m' p1 = map_option (\<lambda>r. r\<lparr>inn := inn r @ xs\<rparr>) (vertices m p1)"
  using assms
proof (induction xs arbitrary: m)
  case Nil
  then show ?case by (simp add: option.map_ident)
next
  case (Cons x xs)
  from Cons.prems obtain r v1 where r: "edges m x = Some r" and v1: "vertices m p1 = Some v1"
    by auto
  define m2 where "m2 = m\<lparr>edges := (edges m)(x \<mapsto> r\<lparr>e_end := p1\<rparr>),
       vertices := (vertices m)(p1 \<mapsto> v1\<lparr>inn := inn v1 @ [x]\<rparr>)\<rparr>"
  have step: "rehome_in p1 (x # xs) m = rehome_in p1 xs m2"
    using r v1 by (simp add: upd_edge_def upd_vertex_def m2_def)
  have "\<forall>y\<in>set xs. edges m2 y \<noteq> None" "vertices m2 p1 \<noteq> None"
    using Cons.prems by (auto simp: m2_def)
  from Cons.IH[OF this] obtain m' where
    m': "rehome_in p1 xs m2 = Some m'"
      "edges m' = (\<lambda>k. if k \<in> set xs then map_option (\<lambda>r. r\<lparr>e_end := p1\<rparr>) (edges m2 k)
                     else edges m2 k)"
      "faces m' = faces m2" "m_faces m' = m_faces m2" "m_vertices m' = m_vertices m2"
      "\<forall>v. v \<noteq> p1 \<longrightarrow> vertices m' v = vertices m2 v"
      "vertices m' p1 = map_option (\<lambda>r. r\<lparr>inn := inn r @ xs\<rparr>) (vertices m2 p1)"
    by blast
  have "edges m' = (\<lambda>k. if k \<in> set (x # xs) then map_option (\<lambda>r. r\<lparr>e_end := p1\<rparr>) (edges m k)
                     else edges m k)"
    using r by (auto simp: m'(2) m2_def fun_eq_iff)
  moreover have "vertices m' p1 = map_option (\<lambda>r. r\<lparr>inn := inn r @ x # xs\<rparr>) (vertices m p1)"
    using v1 by (simp add: m'(7) m2_def)
  ultimately show ?case using m' step by (simp add: m2_def)
qed

lemma deleteVertex_run:
  assumes "v \<in> set (m_vertices m)" "vertices m v \<noteq> None"
  shows "\<exists>m'. deleteVertex v m = Some m' \<and> edges m' = edges m \<and> faces m' = faces m \<and>
     m_faces m' = m_faces m \<and> m_vertices m' = remove1 v (m_vertices m) \<and>
     vertices m' = (vertices m)(v := None)"
  using assms by (auto simp: deleteVertex_def erase_first_def free_vertex_def)

lemma drop_face_run:
  assumes "face_listed m fo"
  shows "\<exists>m'. drop_face fo m = Some m' \<and> edges m' = edges m \<and> vertices m' = vertices m \<and>
     m_vertices m' = m_vertices m \<and>
     faces m' = (\<lambda>g. if Some g = fo then None else faces m g) \<and>
     m_faces m' = (case fo of None \<Rightarrow> m_faces m | Some f \<Rightarrow> remove1 f (m_faces m))"
  using assms
  by (cases fo) (auto simp: drop_face_def face_listed_def erase_first_def free_face_def fun_eq_iff)

lemma lists_ok_same:
  "edges m' = edges m \<Longrightarrow> vertices m' = vertices m \<Longrightarrow> lists_ok m' = lists_ok m"
  by (simp add: lists_ok_def)

lemma lists_ok_merged:
  assumes ok: "lists_ok m" and ne: "p1 \<noteq> p2"
      and v1: "vertices m p1 = Some v1" and v2: "vertices m p2 = Some v2"
      and e: "edges m' = (\<lambda>k. map_option (\<lambda>r. r\<lparr>e_start := merged p1 p2 (e_start r),
                                         e_end := merged p1 p2 (e_end r)\<rparr>) (edges m k))"
      and v: "vertices m' = (vertices m)(p1 \<mapsto> v1\<lparr>out := out v1 @ out v2,
                                 inn := inn v1 @ inn v2\<rparr>, p2 := None)"
  shows "lists_ok m'"
proof -
  have reg: "\<exists>sv tv. vertices m (e_start r) = Some sv \<and> k \<in> set (out sv) \<and>
                 vertices m (e_end r) = Some tv \<and> k \<in> set (inn tv)"
    if "edges m k = Some r" for k r
    using ok that unfolding lists_ok_def by blast
  have vx: "distinct (out vr) \<and> distinct (inn vr) \<and>
        (\<forall>k \<in> set (out vr). \<exists>r. edges m k = Some r \<and> e_start r = w) \<and>
        (\<forall>k \<in> set (inn vr). \<exists>r. edges m k = Some r \<and> e_end r = w)"
    if "vertices m w = Some vr" for w vr
    using ok that unfolding lists_ok_def by blast
  have E: "edges m' k = Some (r\<lparr>e_start := merged p1 p2 (e_start r),
                                 e_end := merged p1 p2 (e_end r)\<rparr>)"
    if "edges m k = Some r" for k r
    using that by (simp add: e)
  show ?thesis
    unfolding lists_ok_def
  proof (intro conjI allI impI)
    fix k r' assume "edges m' k = Some r'"
    then obtain r where r: "edges m k = Some r"
      and r': "r' = r\<lparr>e_start := merged p1 p2 (e_start r), e_end := merged p1 p2 (e_end r)\<rparr>"
      by (auto simp: e)
    from reg[OF r] obtain sv tv where
      s: "vertices m (e_start r) = Some sv" "k \<in> set (out sv)" and
      t: "vertices m (e_end r) = Some tv" "k \<in> set (inn tv)" by blast
    have a: "\<exists>sv'. vertices m' (merged p1 p2 (e_start r)) = Some sv' \<and> k \<in> set (out sv')"
      using s v1 v2 ne by (auto simp: v merged_def)
    have b: "\<exists>tv'. vertices m' (merged p1 p2 (e_end r)) = Some tv' \<and> k \<in> set (inn tv')"
      using t v1 v2 ne by (auto simp: v merged_def)
    from a b show "\<exists>sv tv. vertices m' (e_start r') = Some sv \<and> k \<in> set (out sv) \<and>
                 vertices m' (e_end r') = Some tv \<and> k \<in> set (inn tv)"
      by (simp add: r')
  next
    fix w vr assume w: "vertices m' w = Some vr"
    then have wp2: "w \<noteq> p2" by (auto simp: v split: if_splits)
    show "distinct (out vr)"
    proof (cases "w = p1")
      case True
      with w have o: "out vr = out v1 @ out v2" by (auto simp: v ne)
      have "set (out v1) \<inter> set (out v2) = {}"
        using vx[OF v1] vx[OF v2] ne by fastforce
      with vx[OF v1] vx[OF v2] show ?thesis by (simp add: o)
    next
      case False
      with w wp2 have "vertices m w = Some vr" by (simp add: v)
      from vx[OF this] show ?thesis by simp
    qed
    show "distinct (inn vr)"
    proof (cases "w = p1")
      case True
      with w have o: "inn vr = inn v1 @ inn v2" by (auto simp: v ne)
      have "set (inn v1) \<inter> set (inn v2) = {}"
        using vx[OF v1] vx[OF v2] ne by fastforce
      with vx[OF v1] vx[OF v2] show ?thesis by (simp add: o)
    next
      case False
      with w wp2 have "vertices m w = Some vr" by (simp add: v)
      from vx[OF this] show ?thesis by simp
    qed
    show "\<forall>k \<in> set (out vr). \<exists>r. edges m' k = Some r \<and> e_start r = w"
    proof
      fix k assume k: "k \<in> set (out vr)"
      show "\<exists>r. edges m' k = Some r \<and> e_start r = w"
      proof (cases "w = p1")
        case True
        with w have o: "out vr = out v1 @ out v2" by (auto simp: v ne)
        with k vx[OF v1] vx[OF v2] obtain r where "edges m k = Some r"
          "e_start r = p1 \<or> e_start r = p2" by auto
        with E[OF this(1)] True show ?thesis by (auto simp: merged_def)
      next
        case False
        with w wp2 have "vertices m w = Some vr" by (simp add: v)
        from vx[OF this] k obtain r where "edges m k = Some r" "e_start r = w" by blast
        with E[OF this(1)] wp2 show ?thesis by (simp add: merged_def)
      qed
    qed
    show "\<forall>k \<in> set (inn vr). \<exists>r. edges m' k = Some r \<and> e_end r = w"
    proof
      fix k assume k: "k \<in> set (inn vr)"
      show "\<exists>r. edges m' k = Some r \<and> e_end r = w"
      proof (cases "w = p1")
        case True
        with w have o: "inn vr = inn v1 @ inn v2" by (auto simp: v ne)
        with k vx[OF v1] vx[OF v2] obtain r where "edges m k = Some r"
          "e_end r = p1 \<or> e_end r = p2" by auto
        with E[OF this(1)] True show ?thesis by (auto simp: merged_def)
      next
        case False
        with w wp2 have "vertices m w = Some vr" by (simp add: v)
        from vx[OF this] k obtain r where "edges m k = Some r" "e_end r = w" by blast
        with E[OF this(1)] wp2 show ?thesis by (simp add: merged_def)
      qed
    qed
  qed
qed

lemma merge_run:
  assumes ok: "lists_ok m" and ne: "p1 \<noteq> p2" and v1: "vertices m p1 = Some v1"
      and v2: "vertices m p2 = Some v2" and mv: "p2 \<in> set (m_vertices m)"
  shows "\<exists>mg mh m'. rehome_out p1 (out v2) m = Some mg \<and> vertices mg p2 = Some v2 \<and>
      rehome_in p1 (inn v2) mg = Some mh \<and> deleteVertex p2 mh = Some m' \<and>
      edges m' = (\<lambda>k. map_option (\<lambda>r. r\<lparr>e_start := merged p1 p2 (e_start r),
                                         e_end := merged p1 p2 (e_end r)\<rparr>) (edges m k)) \<and>
      faces m' = faces m \<and> m_faces m' = m_faces m \<and>
      m_vertices m' = remove1 p2 (m_vertices m) \<and> lists_ok m'"
proof -
  from ok v2 have so: "\<And>k. k \<in> set (out v2) \<Longrightarrow> \<exists>r. edges m k = Some r \<and> e_start r = p2"
    and si: "\<And>k. k \<in> set (inn v2) \<Longrightarrow> \<exists>r. edges m k = Some r \<and> e_end r = p2"
    unfolding lists_ok_def by blast+
  have co: "k \<in> set (out v2)" if "edges m k = Some r" "e_start r = p2" for k r
    using ok that v2 unfolding lists_ok_def by fastforce
  have ci: "k \<in> set (inn v2)" if "edges m k = Some r" "e_end r = p2" for k r
    using ok that v2 unfolding lists_ok_def by fastforce
  have v1n: "vertices m p1 \<noteq> None" using v1 by simp
  have "\<forall>x\<in>set (out v2). edges m x \<noteq> None" using so by fastforce
  from rehome_out_run[OF this v1n] obtain mg where
    mg: "rehome_out p1 (out v2) m = Some mg"
      "edges mg = (\<lambda>k. if k \<in> set (out v2) then map_option (\<lambda>r. r\<lparr>e_start := p1\<rparr>) (edges m k)
                     else edges m k)"
      "faces mg = faces m" "m_faces mg = m_faces m" "m_vertices mg = m_vertices m"
      "\<forall>v. v \<noteq> p1 \<longrightarrow> vertices mg v = vertices m v"
      "vertices mg p1 = map_option (\<lambda>r. r\<lparr>out := out r @ out v2\<rparr>) (vertices m p1)"
    by blast
  have v2g: "vertices mg p2 = Some v2" using mg(6) ne v2 by simp
  have v1g: "vertices mg p1 \<noteq> None" using mg(7) v1 by simp
  have "\<forall>x\<in>set (inn v2). edges mg x \<noteq> None"
  proof
    fix x assume "x \<in> set (inn v2)"
    from si[OF this] show "edges mg x \<noteq> None" by (auto simp: mg(2))
  qed
  from rehome_in_run[OF this v1g] obtain mh where
    mh: "rehome_in p1 (inn v2) mg = Some mh"
      "edges mh = (\<lambda>k. if k \<in> set (inn v2) then map_option (\<lambda>r. r\<lparr>e_end := p1\<rparr>) (edges mg k)
                     else edges mg k)"
      "faces mh = faces mg" "m_faces mh = m_faces mg" "m_vertices mh = m_vertices mg"
      "\<forall>v. v \<noteq> p1 \<longrightarrow> vertices mh v = vertices mg v"
      "vertices mh p1 = map_option (\<lambda>r. r\<lparr>inn := inn r @ inn v2\<rparr>) (vertices mg p1)"
    by blast
  have "p2 \<in> set (m_vertices mh)" "vertices mh p2 \<noteq> None"
    using mv mh(5,6) mg(5) v2g ne by simp_all
  from deleteVertex_run[OF this] obtain m' where
    m': "deleteVertex p2 mh = Some m'" "edges m' = edges mh" "faces m' = faces mh"
      "m_faces m' = m_faces mh" "m_vertices m' = remove1 p2 (m_vertices mh)"
      "vertices m' = (vertices mh)(p2 := None)"
    by blast
  have "edges m' k = map_option (\<lambda>r. r\<lparr>e_start := merged p1 p2 (e_start r),
                                         e_end := merged p1 p2 (e_end r)\<rparr>) (edges m k)" for k
  proof (cases "edges m k")
    case None
    with so[of k] si[of k] show ?thesis by (auto simp: m'(2) mh(2) mg(2))
  next
    case (Some r)
    have a: "k \<in> set (out v2) \<longleftrightarrow> e_start r = p2" using so[of k] co[OF Some] Some by auto
    have b: "k \<in> set (inn v2) \<longleftrightarrow> e_end r = p2" using si[of k] ci[OF Some] Some by auto
    show ?thesis using Some by (simp add: m'(2) mh(2) mg(2) a b merged_def)
  qed
  then have em: "edges m' = (\<lambda>k. map_option (\<lambda>r. r\<lparr>e_start := merged p1 p2 (e_start r),
                                         e_end := merged p1 p2 (e_end r)\<rparr>) (edges m k))"
    by (simp add: fun_eq_iff)
  have vm: "vertices m' = (vertices m)(p1 \<mapsto> v1\<lparr>out := out v1 @ out v2,
                                 inn := inn v1 @ inn v2\<rparr>, p2 := None)"
    using mh(6,7) mg(6,7) v1 ne by (auto simp: m'(6) fun_eq_iff)
  have "lists_ok m'" by (rule lists_ok_merged[OF ok ne v1 v2 em vm])
  with mg(1) v2g mh(1) m'(1) em show ?thesis
    using m'(3,4,5) mh(3,4,5) mg(3,4,5) by simp
qed

lemma upd_vertex_fresh: "upd_vertex k g m = Some m' \<Longrightarrow> e_fresh m' = e_fresh m"
  by (auto simp: upd_vertex_def split: option.splits)

lemma upd_edge_fresh: "upd_edge k g m = Some m' \<Longrightarrow> e_fresh m' = e_fresh m"
  by (auto simp: upd_edge_def split: option.splits)

lemma unlink_edge_fresh: "unlink_edge x m = Some m' \<Longrightarrow> e_fresh m' = e_fresh m"
  by (auto simp: unlink_edge_def bind_eq_Some_conv dest!: upd_vertex_fresh)

lemma free_edge_fresh: "free_edge x m = Some m' \<Longrightarrow> e_fresh m' = e_fresh m"
  by (auto simp: free_edge_def split: option.splits if_splits)

lemma deleteEdge_fresh: "deleteEdge x b m = Some m' \<Longrightarrow> e_fresh m' = e_fresh m"
  by (auto simp: deleteEdge_def bind_eq_Some_conv split: if_splits
       dest!: unlink_edge_fresh free_edge_fresh)

lemma collapse_block_fresh: "collapse_block base m = Some m' \<Longrightarrow> e_fresh m' = e_fresh m"
  by (auto simp: collapse_block_def bind_eq_Some_conv dest!: upd_edge_fresh deleteEdge_fresh)

lemma drop_face_fresh: "drop_face fo m = Some m' \<Longrightarrow> e_fresh m' = e_fresh m"
  by (auto simp: drop_face_def free_face_def bind_eq_Some_conv split: option.splits if_splits)

lemma rehome_out_fresh: "rehome_out p xs m = Some m' \<Longrightarrow> e_fresh m' = e_fresh m"
proof (induction xs arbitrary: m)
  case Nil then show ?case by simp
next
  case (Cons x xs)
  then show ?case
    by (auto simp: bind_eq_Some_conv dest!: upd_edge_fresh upd_vertex_fresh)
qed

lemma rehome_in_fresh: "rehome_in p xs m = Some m' \<Longrightarrow> e_fresh m' = e_fresh m"
proof (induction xs arbitrary: m)
  case Nil then show ?case by simp
next
  case (Cons x xs)
  then show ?case
    by (auto simp: bind_eq_Some_conv dest!: upd_edge_fresh upd_vertex_fresh)
qed

lemma deleteVertex_fresh: "deleteVertex v m = Some m' \<Longrightarrow> e_fresh m' = e_fresh m"
  by (auto simp: deleteVertex_def free_vertex_def bind_eq_Some_conv split: option.splits if_splits)

lemma cond_fresh:
  assumes "(if c then f m else Some m) = Some m'"
      and "\<And>m'. f m = Some m' \<Longrightarrow> e_fresh m' = e_fresh m"
  shows "e_fresh m' = e_fresh m"
  using assms by (auto split: if_splits)

lemma cond_none_fresh:
  assumes "(if c then None else f m) = Some m'"
      and "\<And>m'. f m = Some m' \<Longrightarrow> e_fresh m' = e_fresh m"
  shows "e_fresh m' = e_fresh m"
  using assms by (auto split: if_splits)

lemma collapseEdge_fresh:
  assumes "collapseEdge e m = Some m'"
  shows "e_fresh m' = e_fresh m"
  using assms unfolding collapseEdge_def bind_eq_Some_conv
  apply (elim exE conjE)
  apply (drule upd_vertex_fresh)
  apply (drule cond_fresh, erule collapse_block_fresh)
  apply (drule cond_fresh, erule collapse_block_fresh)
  apply (drule drop_face_fresh)
  apply (drule drop_face_fresh)
  apply (drule deleteEdge_fresh)
  apply (drule cond_none_fresh, erule rehome_out_fresh)
  apply (drule cond_none_fresh, erule rehome_in_fresh)
  apply (drule deleteVertex_fresh)
  apply simp
  done

lemma keeps_none: "keeps F E E' \<Longrightarrow> E k = None \<Longrightarrow> E' k = None"
  unfolding keeps_def by (auto dest!: spec[of _ k])

lemma collapse_siteD:
  assumes "collapse_site m e"
  shows "\<exists>er pe per. edges m e = Some er \<and> e_start er \<noteq> e_end er \<and>
      e_end er \<in> set (m_vertices m) \<and> e_pair er = Some pe \<and> edges m pe = Some per \<and>
      side_ok (edges m) e \<and> side_ok (edges m) pe \<and>
      face_listed m (e_face er) \<and> face_listed m (e_face per) \<and>
      (e_face er = None \<or> e_face per = None \<or> e_face er \<noteq> e_face per)"
  using assms by (simp add: collapse_site_def split: option.splits)

lemma collapseEdge_run:
  assumes p: "pairing_inv m" and ok: "lists_ok m" and site: "collapse_site m e"
  shows "\<exists>m'. collapseEdge e m = Some m' \<and>
      length (m_vertices m') + 1 = length (m_vertices m) \<and>
      length (m_faces m') + sides m e = length (m_faces m) \<and>
      pairing_inv m' \<and> lists_ok m' \<and> (cycle_inv m \<longrightarrow> cycle_inv m') \<and>
      (\<forall>k. edges m k = None \<longrightarrow> edges m' k = None)"
proof -
  from collapse_siteD[OF site] obtain er pe per where
    er: "edges m e = Some er" "e_start er \<noteq> e_end er" "e_pair er = Some pe"
    and mv: "e_end er \<in> set (m_vertices m)"
    and per: "edges m pe = Some per"
    and so: "side_ok (edges m) e" "side_ok (edges m) pe"
    and fl: "face_listed m (e_face er)" "face_listed m (e_face per)"
    and df: "e_face er = None \<or> e_face per = None \<or> e_face er \<noteq> e_face per"
    by blast
  define p1 where "p1 = e_start er"
  define p2 where "p2 = e_end er"
  define \<sigma> where "\<sigma> = merged p1 p2"
  have ne: "p1 \<noteq> p2" using er(2) by (simp add: p1_def p2_def)
  from p have "pairing_mod (\<lambda>v. v) (edges m)" by (simp add: pairing_inv_mod)
  with er(1) obtain q qr where "e_pair er = Some q" "edges m q = Some qr" "e_pair qr = Some e"
     "e_start qr = e_end er" "e_end qr = e_start er"
    unfolding pairing_mod_def by blast
  with er(3) per have pp: "e_pair per = Some e" "e_start per = p2" "e_end per = p1"
    by (simp_all add: p1_def p2_def)
  have pe_ne: "pe \<noteq> e" using er(1) per pp ne by (auto simp: p1_def)
  from ok er(1) obtain v1 v2 where v: "vertices m p1 = Some v1" "vertices m p2 = Some v2"
    unfolding lists_ok_def p1_def p2_def by blast
  define ma where "ma = m\<lparr>vertices := (vertices m)(p1 \<mapsto>
      v1\<lparr>m_position := midpoint (m_position v1) (m_position v2)\<rparr>)\<rparr>"
  have s0: "upd_vertex p1 (\<lambda>r. r\<lparr>m_position := midpoint (m_position v1) (m_position v2)\<rparr>) m
        = Some ma"
    using v by (simp add: upd_vertex_def ma_def)
  have ema: "edges ma = edges m" "faces ma = faces m" "m_faces ma = m_faces m"
     "m_vertices ma = m_vertices m" by (simp_all add: ma_def)
  have dma: "vertices ma w = None \<longleftrightarrow> vertices m w = None" for w
    using v by (simp add: ma_def)
  have okA: "lists_ok ma"
    by (rule lists_ok_cong[OF ok]) (use v in \<open>auto simp: ma_def\<close>)
  have pmA: "pairing_mod \<sigma> (edges ma)"
    using p by (simp add: ema pairing_inv_mod pm_weaken)
  have sg: "\<sigma> (e_start er) = \<sigma> (e_end er)" "\<sigma> (e_start per) = \<sigma> (e_end per)"
    by (simp_all add: \<sigma>_def merged_def p1_def p2_def pp)
  have "\<exists>mb. (if e_face er \<noteq> None then collapse_block (\<lambda>s. Some e) ma else Some ma) = Some mb \<and>
      lists_ok mb \<and> pairing_mod (merged p1 p2) (edges mb) \<and>
      keeps {e_face er} (edges ma) (edges mb) \<and>
      (\<forall>k r. edges ma k = Some r \<longrightarrow> merged p1 p2 (e_start r) = merged p1 p2 (e_end r) \<longrightarrow>
           edges mb k = Some r) \<and>
      (\<forall>k r. edges ma k = Some r \<longrightarrow> e_face r \<noteq> e_face er \<longrightarrow>
           (\<exists>q. edges mb k = Some (r\<lparr>e_pair := q\<rparr>))) \<and>
      faces mb = faces ma \<and> m_faces mb = m_faces ma \<and> m_vertices mb = m_vertices ma \<and>
      (\<forall>v. vertices mb v = None \<longleftrightarrow> vertices ma v = None)"
  proof (rule side_step[where ?e0.0 = e and x = e and m = ma and base = "\<lambda>s. Some e",
          OF okA pmA[unfolded \<sigma>_def]])
    show "side_ok (edges ma) e" using so(1) by (simp add: ema)
    show "edges ma e = Some er" "edges ma e = Some er" using er(1) by (simp_all add: ema)
    show "e_start er = p1 \<and> e_end er = p2 \<or> e_start er = p2 \<and> e_end er = p1"
      by (simp add: p1_def p2_def)
    show "merged p1 p2 (e_start er) = merged p1 p2 (e_end er)" using sg(1) by (simp add: \<sigma>_def)
  qed simp
  then obtain mb where
    s1: "(if e_face er \<noteq> None then collapse_block (\<lambda>s. Some e) ma else Some ma) = Some mb"
    and okB: "lists_ok mb" and pmB: "pairing_mod \<sigma> (edges mb)"
    and kB: "keeps {e_face er} (edges m) (edges mb)"
    and frB: "\<And>k r. edges m k = Some r \<Longrightarrow> \<sigma> (e_start r) = \<sigma> (e_end r) \<Longrightarrow>
           edges mb k = Some r"
    and chB: "\<And>k r. edges m k = Some r \<Longrightarrow> e_face r \<noteq> e_face er \<Longrightarrow>
           \<exists>q. edges mb k = Some (r\<lparr>e_pair := q\<rparr>)"
    and sameB: "faces mb = faces m" "m_faces mb = m_faces m" "m_vertices mb = m_vertices m"
    and dmb: "\<And>w. vertices mb w = None \<longleftrightarrow> vertices m w = None"
    by (auto simp: ema dma \<sigma>_def)
  have eB: "edges mb e = Some er" by (rule frB[OF er(1) sg(1)])
  have peB: "edges mb pe = Some per" by (rule frB[OF per sg(2)])
  have df2: "e_face per = None \<or> e_face per \<noteq> e_face er" using df by auto
  have soB: "side_ok (edges mb) pe"
  proof (rule side_ok_kept[where E = "edges m" and E' = "edges mb" and fo = "e_face er",
        OF so(2) per peB _ df2])
    show "\<exists>q. edges mb k = Some (r\<lparr>e_pair := q\<rparr>)"
      if "edges m k = Some r" "e_face r \<noteq> e_face er" for k r
      by (rule chB[OF that])
  qed
  have "\<exists>mc. (if e_face per \<noteq> None then collapse_block (\<lambda>s. pairOf s e) mb else Some mb)
          = Some mc \<and>
      lists_ok mc \<and> pairing_mod (merged p1 p2) (edges mc) \<and>
      keeps {e_face per} (edges mb) (edges mc) \<and>
      (\<forall>k r. edges mb k = Some r \<longrightarrow> merged p1 p2 (e_start r) = merged p1 p2 (e_end r) \<longrightarrow>
           edges mc k = Some r) \<and>
      (\<forall>k r. edges mb k = Some r \<longrightarrow> e_face r \<noteq> e_face per \<longrightarrow>
           (\<exists>q. edges mc k = Some (r\<lparr>e_pair := q\<rparr>))) \<and>
      faces mc = faces mb \<and> m_faces mc = m_faces mb \<and> m_vertices mc = m_vertices mb \<and>
      (\<forall>v. vertices mc v = None \<longleftrightarrow> vertices mb v = None)"
  proof (rule side_step[where ?e0.0 = e and x = pe and m = mb and base = "\<lambda>s. pairOf s e",
          OF okB pmB[unfolded \<sigma>_def] soB peB _ _ eB])
    show "e_start per = p1 \<and> e_end per = p2 \<or> e_start per = p2 \<and> e_end per = p1"
      using pp by simp
    show "pairOf s e = Some pe" if "edges s e = edges mb e" for s
      using that eB er(3) by (simp add: pairOf_def)
    show "merged p1 p2 (e_start er) = merged p1 p2 (e_end er)" using sg(1) by (simp add: \<sigma>_def)
  qed
  then obtain mc where
    s2: "(if e_face per \<noteq> None then collapse_block (\<lambda>s. pairOf s e) mb else Some mb) = Some mc"
    and okC: "lists_ok mc" and pmC: "pairing_mod \<sigma> (edges mc)"
    and kC: "keeps {e_face per} (edges mb) (edges mc)"
    and frC: "\<And>k r. edges mb k = Some r \<Longrightarrow> \<sigma> (e_start r) = \<sigma> (e_end r) \<Longrightarrow>
           edges mc k = Some r"
    and sameC: "faces mc = faces m" "m_faces mc = m_faces m" "m_vertices mc = m_vertices m"
    and dmc: "\<And>w. vertices mc w = None \<longleftrightarrow> vertices m w = None"
    by (auto simp: sameB dmb \<sigma>_def)
  have eC: "edges mc e = Some er" by (rule frC[OF eB sg(1)])
  have peC: "edges mc pe = Some per" by (rule frC[OF peB sg(2)])
  have "face_listed mc (e_face per)"
    using fl(2) by (simp add: face_listed_def sameC split: option.splits)
  from drop_face_run[OF this] obtain md where
    s3: "drop_face (e_face per) mc = Some md" and
    md: "edges md = edges mc" "vertices md = vertices mc" "m_vertices md = m_vertices m"
      "faces md = (\<lambda>g. if Some g = e_face per then None else faces m g)"
      "m_faces md = (case e_face per of None \<Rightarrow> m_faces m | Some f \<Rightarrow> remove1 f (m_faces m))"
    by (auto simp: sameC cong: option.case_cong if_cong)
  have "face_listed md (e_face er)"
    using fl(1) df by (auto simp: face_listed_def md split: option.splits)
  from drop_face_run[OF this] obtain me where
    s4: "drop_face (e_face er) md = Some me" and
    me: "edges me = edges mc" "vertices me = vertices mc" "m_vertices me = m_vertices m"
      "faces me = (\<lambda>g. if Some g = e_face er then None else faces md g)"
      "m_faces me = (case e_face er of None \<Rightarrow> m_faces md | Some f \<Rightarrow> remove1 f (m_faces md))"
    by (auto simp: md cong: option.case_cong if_cong)
  have okE: "lists_ok me" using okC lists_ok_same[OF me(1) me(2)] by simp
  have eE: "edges me e = Some er" "edges me pe = Some per" using eC peC by (simp_all add: me)
  from deleteEdge_True_step[OF okE eE(1) er(3) pe_ne eE(2)] obtain mf where
    s5: "deleteEdge e True me = Some mf" and
    mf: "edges mf = (edges mc)(pe := None, e := None)" "lists_ok mf"
      "faces mf = faces me" "m_faces mf = m_faces me" "m_vertices mf = m_vertices m"
    and dmf: "\<And>w. vertices mf w = None \<longleftrightarrow> vertices m w = None"
    by (auto simp: me dmc)
  from dmf[of p2] dmf[of p1] v obtain v1f v2f where
    vf: "vertices mf p2 = Some v2f" "vertices mf p1 = Some v1f" by auto
  have mvf: "p2 \<in> set (m_vertices mf)" using mv by (simp add: mf p2_def)
  from merge_run[OF mf(2) ne vf(2) vf(1) mvf] obtain mg mh m' where
    s6: "rehome_out p1 (out v2f) mf = Some mg" "vertices mg p2 = Some v2f"
       "rehome_in p1 (inn v2f) mg = Some mh" "deleteVertex p2 mh = Some m'"
    and m': "edges m' = (\<lambda>k. map_option (\<lambda>r. r\<lparr>e_start := \<sigma> (e_start r),
                                         e_end := \<sigma> (e_end r)\<rparr>) (edges mf k))"
       "faces m' = faces me" "m_faces m' = m_faces me"
       "m_vertices m' = remove1 p2 (m_vertices m)"
    and okM: "lists_ok m'"
    by (auto simp: \<sigma>_def mf)
  have run: "collapseEdge e m = Some m'"
    unfolding collapseEdge_def
    using er(1,3) v s0 s1 eB peB s2 eC peC s3 s4 s5 vf(1) s6 ne
    by (simp add: startOf_def endOf_def pairOf_def p1_def[symmetric] p2_def[symmetric]
          ema md me)
  have cv: "length (m_vertices m') + 1 = length (m_vertices m)"
    using mv by (simp add: m'(4) p2_def length_remove1)
       (metis One_nat_def Suc_pred length_pos_if_in_set)
  have cf: "length (m_faces m') + sides m e = length (m_faces m)"
  proof -
    have sd: "sides m e = (if e_face er = None then 0 else 1) + (if e_face per = None then 0 else 1)"
      using er per by (simp add: sides_def faceOf_def pairOf_def)
    have pos: "f \<in> set xs \<Longrightarrow> length (remove1 f xs) + 1 = length xs" for f :: nat and xs
      by (simp add: length_remove1) (metis One_nat_def Suc_pred length_pos_if_in_set)
    show ?thesis
    proof (cases "e_face per")
      case None
      show ?thesis
      proof (cases "e_face er")
        case None
        with \<open>e_face per = None\<close> show ?thesis by (simp add: sd m'(3) me md)
      next
        case (Some f1)
        with \<open>e_face per = None\<close> fl(1) pos[of f1 "m_faces m"] show ?thesis
          by (simp add: sd m'(3) me md face_listed_def)
      qed
    next
      case (Some f2)
      show ?thesis
      proof (cases "e_face er")
        case None
        with Some fl(2) pos[of f2 "m_faces m"] show ?thesis
          by (simp add: sd m'(3) me md face_listed_def)
      next
        case f1: (Some f1)
        with Some df have "f1 \<noteq> f2" by auto
        with f1 Some fl pos[of f2 "m_faces m"] pos[of f1 "remove1 f2 (m_faces m)"]
        show ?thesis
          by (simp add: sd m'(3) me md face_listed_def)
      qed
    qed
  qed
  have pmF: "pairing_mod \<sigma> (edges mf)"
    unfolding mf(1) by (rule pm_del_pair[OF pmC eC er(3)])
  have pi: "pairing_inv m'"
    unfolding pairing_inv_mod m'(1) by (rule pm_rehome[OF pmF])
  define F where "F = {e_face er, e_face per}"
  have k1: "keeps F (edges m) (edges mb)" by (rule keeps_mono[OF kB]) (simp add: F_def)
  have k2: "keeps F (edges mb) (edges mc)" by (rule keeps_mono[OF kC]) (simp add: F_def)
  have k3: "keeps F (edges mc) (edges mf)"
    unfolding mf(1) by (rule keeps_del[OF eC _ peC]) (simp_all add: F_def)
  have k4: "keeps F (edges mf) (edges m')" unfolding m'(1) by (rule keeps_rehome)
  have kk: "keeps F (edges m) (edges m')"
    by (rule keeps_trans[OF keeps_trans[OF keeps_trans[OF k1 k2] k3] k4])
  have ff: "faces m' g = (if Some g \<in> F then None else faces m g)" for g
    by (auto simp: m'(2) me md F_def)
  have ci: "cycle_inv m'" if "cycle_inv m" by (rule cycle_keeps[OF that kk ff])
  have nn: "edges m' k = None" if "edges m k = None" for k
    by (rule keeps_none[OF kk that])
  from run cv cf pi okM ci nn show ?thesis by blast
qed

lemma lists_ok_unit_square: "lists_ok unit_square"
  unfolding lists_ok_def
  by (simp add: unit_square_def mesh_eval)

lemma lists_ok_folded: "lists_ok folded"
  unfolding lists_ok_def
  by (simp add: folded_def mesh_eval)

lemma lists_ok_pillow: "lists_ok pillow"
  unfolding lists_ok_def
  by (simp add: pillow_def mesh_eval)

lemma lists_ok_one_triangle: "lists_ok one_triangle"
  unfolding lists_ok_def
  by (simp add: one_triangle_def mesh_eval)

lemma pairing_inv_listI:
  assumes "edges_fresh m" "list_all (pairing_at m) [0..<e_fresh m]"
  shows "pairing_inv m"
  unfolding pairing_inv_def
proof
  fix k
  show "pairing_at m k"
  proof (cases "k < e_fresh m")
    case True
    with assms(2) show ?thesis by (simp add: list_all_iff)
  next
    case False
    then have "k = e_fresh m + (k - e_fresh m)" by simp
    with assms(1) have "edges m k = None" unfolding edges_fresh_def by metis
    then show ?thesis by (simp add: pairing_at_def)
  qed
qed

lemma cycle_inv_listI:
  assumes "faces_fresh m" "list_all (cycle_at m) [0..<f_fresh m]"
  shows "cycle_inv m"
  unfolding cycle_inv_def
proof
  fix k
  show "cycle_at m k"
  proof (cases "k < f_fresh m")
    case True
    with assms(2) show ?thesis by (simp add: list_all_iff)
  next
    case False
    then have "k = f_fresh m + (k - f_fresh m)" by simp
    with assms(1) have "faces m k = None" unfolding faces_fresh_def by metis
    then show ?thesis by (simp add: cycle_at_def)
  qed
qed

lemma fresh_unit_square: "edges_fresh unit_square \<and> faces_fresh unit_square"
  by (simp add: edges_fresh_def faces_fresh_def unit_square_def mesh_eval)

lemma fresh_pillow: "edges_fresh pillow \<and> faces_fresh pillow"
  by (simp add: edges_fresh_def faces_fresh_def pillow_def mesh_eval)

lemma fresh_one_triangle: "edges_fresh one_triangle \<and> faces_fresh one_triangle"
  by (simp add: edges_fresh_def faces_fresh_def one_triangle_def mesh_eval)

lemma fresh_folded: "edges_fresh folded \<and> faces_fresh folded"
  by (simp add: edges_fresh_def faces_fresh_def folded_def mesh_eval)

lemma inv_unit_square: "pairing_inv unit_square \<and> cycle_inv unit_square"
proof
  have "list_all (pairing_at unit_square) [0..<e_fresh unit_square]" by code_simp
  with fresh_unit_square show "pairing_inv unit_square" by (simp add: pairing_inv_listI)
  have "list_all (cycle_at unit_square) [0..<f_fresh unit_square]" by code_simp
  with fresh_unit_square show "cycle_inv unit_square" by (simp add: cycle_inv_listI)
qed

lemma inv_pillow: "pairing_inv pillow \<and> cycle_inv pillow"
proof
  have "list_all (pairing_at pillow) [0..<e_fresh pillow]" by code_simp
  with fresh_pillow show "pairing_inv pillow" by (simp add: pairing_inv_listI)
  have "list_all (cycle_at pillow) [0..<f_fresh pillow]" by code_simp
  with fresh_pillow show "cycle_inv pillow" by (simp add: cycle_inv_listI)
qed

lemma inv_one_triangle: "pairing_inv one_triangle \<and> cycle_inv one_triangle"
proof
  have "list_all (pairing_at one_triangle) [0..<e_fresh one_triangle]" by code_simp
  with fresh_one_triangle show "pairing_inv one_triangle" by (simp add: pairing_inv_listI)
  have "list_all (cycle_at one_triangle) [0..<f_fresh one_triangle]" by code_simp
  with fresh_one_triangle show "cycle_inv one_triangle" by (simp add: cycle_inv_listI)
qed

lemma inv_folded: "pairing_inv folded \<and> cycle_inv folded"
proof
  have "list_all (pairing_at folded) [0..<e_fresh folded]" by code_simp
  with fresh_folded show "pairing_inv folded" by (simp add: pairing_inv_listI)
  have "list_all (cycle_at folded) [0..<f_fresh folded]" by code_simp
  with fresh_folded show "cycle_inv folded" by (simp add: cycle_inv_listI)
qed

lemma fresh_beheaded: "edges_fresh beheaded \<and> faces_fresh beheaded"
  by (simp add: edges_fresh_def faces_fresh_def beheaded_def unit_square_def deleteVertex_def
        erase_first_def free_vertex_def mesh_eval)

text \<open>
  Claim C4. For every half-edge \<open>e\<close> of a mesh that satisfies the pairing and the face-cycle
  invariant and whose adjacency lists are consistent, where the end points of \<open>e\<close> differ,
  each side of \<open>e\<close> that carries a face is a triangle on three different vertices, and the
  two sides, when both carry a face, carry two faces: \<open>collapseEdge(e)\<close> returns, decreases
  the vertex count by exactly 1 and the face count by exactly the number of sides of \<open>e\<close>
  (0, 1 or 2) that carried a face, and the pairing invariant, the face-cycle invariant and
  the consistency of the adjacency lists hold on the resulting mesh.
\<close>

theorem collapseEdge_counts_and_invariants:
  assumes p: "pairing_inv m" and c: "cycle_inv m" and ok: "lists_ok m"
      and site: "collapse_site m e"
  shows "\<exists>m'. collapseEdge e m = Some m' \<and>
      length (m_vertices m') + 1 = length (m_vertices m) \<and>
      length (m_faces m') + sides m e = length (m_faces m) \<and>
      pairing_inv m' \<and> cycle_inv m' \<and> lists_ok m'"
  using collapseEdge_run[OF p ok site] c by blast

text \<open>
  The theorem at the diagonal of the unit square, which carries a face on both sides: four
  vertices and two faces before, three vertices and no face after. And at the half-edge 0
  of the pillow, two triangles glued along all three edges, where the two sides have the
  same third corner; and at the half-edge 0 of one triangle, whose pair has no face.
\<close>

theorem collapseEdge_counts_and_invariants_witness:
  "(pairing_inv unit_square \<and> cycle_inv unit_square \<and> lists_ok unit_square \<and>
    collapse_site unit_square 4 \<and> sides unit_square 4 = 2 \<and>
    length (m_vertices unit_square) = 4 \<and> length (m_faces unit_square) = 2 \<and>
    (\<exists>m'. collapseEdge 4 unit_square = Some m' \<and> length (m_vertices m') = 3 \<and>
       length (m_faces m') = 0 \<and> pairing_inv m' \<and> cycle_inv m' \<and> lists_ok m')) \<and>
   (pairing_inv pillow \<and> cycle_inv pillow \<and> lists_ok pillow \<and>
    collapse_site pillow 0 \<and> sides pillow 0 = 2 \<and>
    length (m_vertices pillow) = 4 \<and> length (m_faces pillow) = 2 \<and>
    (\<exists>m'. collapseEdge 0 pillow = Some m' \<and> length (m_vertices m') = 3 \<and>
       length (m_faces m') = 0 \<and> pairing_inv m' \<and> cycle_inv m' \<and> lists_ok m')) \<and>
   (pairing_inv one_triangle \<and> cycle_inv one_triangle \<and> lists_ok one_triangle \<and>
    collapse_site one_triangle 0 \<and> sides one_triangle 0 = 1 \<and>
    length (m_vertices one_triangle) = 4 \<and> length (m_faces one_triangle) = 1 \<and>
    (\<exists>m'. collapseEdge 0 one_triangle = Some m' \<and> length (m_vertices m') = 3 \<and>
       length (m_faces m') = 0 \<and> pairing_inv m' \<and> cycle_inv m' \<and> lists_ok m'))"
proof (intro conjI)
  note a = inv_unit_square[THEN conjunct1] inv_unit_square[THEN conjunct2] lists_ok_unit_square
  have s: "collapse_site unit_square 4" by code_simp
  have n: "sides unit_square 4 = 2" "length (m_vertices unit_square) = 4"
     "length (m_faces unit_square) = 2" by code_simp+
  from collapseEdge_counts_and_invariants[OF a s] n
  show "\<exists>m'. collapseEdge 4 unit_square = Some m' \<and> length (m_vertices m') = 3 \<and>
      length (m_faces m') = 0 \<and> pairing_inv m' \<and> cycle_inv m' \<and> lists_ok m'"
    by auto
  show "pairing_inv unit_square" "cycle_inv unit_square" "lists_ok unit_square"
    "collapse_site unit_square 4" "sides unit_square 4 = 2"
    "length (m_vertices unit_square) = 4" "length (m_faces unit_square) = 2"
    by (rule a s n)+
next
  note a = inv_pillow[THEN conjunct1] inv_pillow[THEN conjunct2] lists_ok_pillow
  have s: "collapse_site pillow 0" by code_simp
  have n: "sides pillow 0 = 2" "length (m_vertices pillow) = 4"
     "length (m_faces pillow) = 2" by code_simp+
  from collapseEdge_counts_and_invariants[OF a s] n
  show "\<exists>m'. collapseEdge 0 pillow = Some m' \<and> length (m_vertices m') = 3 \<and>
      length (m_faces m') = 0 \<and> pairing_inv m' \<and> cycle_inv m' \<and> lists_ok m'"
    by auto
  show "pairing_inv pillow" "cycle_inv pillow" "lists_ok pillow"
    "collapse_site pillow 0" "sides pillow 0 = 2"
    "length (m_vertices pillow) = 4" "length (m_faces pillow) = 2"
    by (rule a s n)+
next
  note a = inv_one_triangle[THEN conjunct1] inv_one_triangle[THEN conjunct2]
    lists_ok_one_triangle
  have s: "collapse_site one_triangle 0" by code_simp
  have n: "sides one_triangle 0 = 1" "length (m_vertices one_triangle) = 4"
     "length (m_faces one_triangle) = 1" by code_simp+
  from collapseEdge_counts_and_invariants[OF a s] n
  show "\<exists>m'. collapseEdge 0 one_triangle = Some m' \<and> length (m_vertices m') = 3 \<and>
      length (m_faces m') = 0 \<and> pairing_inv m' \<and> cycle_inv m' \<and> lists_ok m'"
    by auto
  show "pairing_inv one_triangle" "cycle_inv one_triangle" "lists_ok one_triangle"
    "collapse_site one_triangle 0" "sides one_triangle 0 = 1"
    "length (m_vertices one_triangle) = 4" "length (m_faces one_triangle) = 1"
    by (rule a s n)+
qed

text \<open>
  The restrictions are needed. The mesh \<open>folded\<close>, built by \<open>addTriangle(0, 1, 0)\<close>,
  satisfies both graph invariants and has consistent adjacency lists; its half-edge 0 and
  the pair of it both carry the face 0. The first block of \<open>collapseEdge\<close> re-pairs the
  half-edge 0 with a half-edge without face, so the second block and the second deletion of
  a face are skipped: two sides carried a face and the face count goes down by one. And the
  unit square after \<open>deleteVertex\<close> of its corner 3 satisfies both graph invariants, the
  two sides of its diagonal are triangles on three different vertices with two listed
  faces; \<open>collapseEdge\<close> on the diagonal reads the freed vertex when it deletes the edge
  from that corner, and has no result.
\<close>

theorem collapseEdge_folded_triangle_drops_one_face:
  "(pairing_inv folded \<and> cycle_inv folded \<and> lists_ok folded \<and>
    sides folded 0 = 2 \<and> length (m_faces folded) = 1 \<and>
    map_option (\<lambda>m'. length (m_faces m')) (collapseEdge 0 folded) = Some 0) \<and>
   (pairing_inv beheaded \<and> cycle_inv beheaded \<and> collapse_site beheaded 4 \<and>
    map_option (\<lambda>m'. length (m_faces m')) (collapseEdge 4 beheaded) = None)"
proof -
  have "sides folded 0 = 2 \<and> length (m_faces folded) = 1 \<and>
   map_option (\<lambda>m'. length (m_faces m')) (collapseEdge 0 folded) = Some 0" by code_simp
  moreover have "list_all (pairing_at beheaded) [0..<e_fresh beheaded]" by code_simp
  with fresh_beheaded have "pairing_inv beheaded" by (simp add: pairing_inv_listI)
  moreover have "list_all (cycle_at beheaded) [0..<f_fresh beheaded]" by code_simp
  with fresh_beheaded have "cycle_inv beheaded" by (simp add: cycle_inv_listI)
  moreover have "collapse_site beheaded 4 \<and>
    map_option (\<lambda>m'. length (m_faces m')) (collapseEdge 4 beheaded) = None" by code_simp
  ultimately show ?thesis using inv_folded lists_ok_folded by simp
qed

end
